theory Spec2Isabelle
  imports Complex_Main "HOL-Library.Word"
begin

unbundle bit_operations_syntax

section \<open>The binary damage index (.agd): codec, writer, reader, detector\<close>

text \<open>
  Shallow embedding of \<^verbatim>\<open>include/agp/damage_index.hpp\<close>,
  \<^verbatim>\<open>src/damage_index_writer.cpp\<close> and \<^verbatim>\<open>src/damage_index_reader.cpp\<close>.
  Unsigned machine integers are words of their width; \<^verbatim>\<open>size_t\<close> positions inside a
  sequence are natural numbers where the source's guards keep them from wrapping, and
  words (or an explicit \<open>mod 2 ^ 64\<close>) where they can wrap. Exceptions are values of
  type \<open>exn\<close>; every \<^verbatim>\<open>throw\<close> of the source is an \<open>Inl\<close> branch.
\<close>

type_synonym byte = "8 word"

subsection \<open>IEEE 754 arithmetic of \<^verbatim>\<open>float\<close> and \<^verbatim>\<open>double\<close>\<close>

text \<open>
  A finite floating-point value is modelled by the real number it denotes. Every
  arithmetic operation of the source computes the exact real result and rounds it to the
  nearest representable value, ties to the even significand (the default rounding mode):
  \<open>fl_round p emin\<close> does so for a format with \<open>p\<close> significand bits and least
  normal exponent \<open>emin\<close>; below \<open>2 ^ emin\<close> the spacing stays that of the least
  binade (subnormal numbers). Overflow to infinity and NaN are not modelled: no operation
  below is applied to operands that could reach them.
\<close>

definition rne :: "real \<Rightarrow> int" where
  "rne x = (let f = \<lfloor>x\<rfloor> in
     if x - of_int f < 1 / 2 then f
     else if 1 / 2 < x - of_int f then f + 1
     else if even f then f else f + 1)"

text \<open>The exponent of the quantum: the spacing of the format around \<open>x\<close> is
  \<open>2\<close> to this power.\<close>

definition quantum :: "nat \<Rightarrow> int \<Rightarrow> real \<Rightarrow> int" where
  "quantum p emin x = max \<lfloor>log 2 \<bar>x\<bar>\<rfloor> emin - (int p - 1)"

definition fl_round :: "nat \<Rightarrow> int \<Rightarrow> real \<Rightarrow> real" where
  "fl_round p emin x = (if x = 0 then 0 else
     of_int (rne (x / 2 powr of_int (quantum p emin x))) * 2 powr of_int (quantum p emin x))"

definition f32 :: "real \<Rightarrow> real" where
  "f32 = fl_round 24 (- 126)"

definition f64 :: "real \<Rightarrow> real" where
  "f64 = fl_round 53 (- 1022)"

subsection \<open>Constants and hashing (\<^verbatim>\<open>damage_index.hpp\<close>)\<close>

definition AGD_MAGIC :: "32 word" where
  "AGD_MAGIC = 0x01444741"

definition AGD_VERSION :: "32 word" where
  "AGD_VERSION = 1"

definition FNV_OFFSET_BASIS :: "64 word" where
  "FNV_OFFSET_BASIS = 14695981039346656037"

definition FNV_PRIME :: "64 word" where
  "FNV_PRIME = 1099511628211"

text \<open>\<^verbatim>\<open>for (char c : str) { hash ^= static_cast<uint8_t>(c); hash *= FNV_PRIME; }\<close>\<close>

definition fnv1a_hash :: "string \<Rightarrow> 64 word" where
  "fnv1a_hash str = foldl (\<lambda>hash c. (hash XOR of_char c) * FNV_PRIME) FNV_OFFSET_BASIS str"

text \<open>
  FNV-1a as the format description words it, on natural numbers: starting from the offset
  basis, each byte is xor-ed into the hash, which is then multiplied by the prime, modulo
  \<open>2 ^ 64\<close>. It is the reference the source's function is compared with.
\<close>

fun fnv1a_spec :: "nat \<Rightarrow> nat list \<Rightarrow> nat" where
  "fnv1a_spec h [] = h"
| "fnv1a_spec h (b # bs) = fnv1a_spec (((h XOR b) * 1099511628211) mod 2 ^ 64) bs"

text \<open>
  \<^verbatim>\<open>strip_agp_suffix\<close>: the pattern tested at the end of the identifier is
  \<^verbatim>\<open>_[+-]_[0-2]\<close>, four characters. The digit test compares character codes
  (\<^verbatim>\<open>'0'\<close> is 48, \<^verbatim>\<open>'2'\<close> is 50).
\<close>

definition strip_agp_suffix :: "string \<Rightarrow> string" where
  "strip_agp_suffix rid = (if 4 \<le> length rid then
     (let pos = length rid - 4 in
      if rid ! pos = CHR ''_'' \<and>
         (rid ! (pos + 1) = CHR ''+'' \<or> rid ! (pos + 1) = CHR ''-'') \<and>
         rid ! (pos + 2) = CHR ''_'' \<and>
         (48::nat) \<le> of_char (rid ! (pos + 3)) \<and> of_char (rid ! (pos + 3)) \<le> (50::nat)
      then take pos rid else rid)
     else rid)"

subsection \<open>Codon and frame encoding\<close>

definition encode_nucleotide :: "char \<Rightarrow> int" where
  "encode_nucleotide nt =
     (if nt = CHR ''T'' \<or> nt = CHR ''t'' then 0
      else if nt = CHR ''C'' \<or> nt = CHR ''c'' then 1
      else if nt = CHR ''A'' \<or> nt = CHR ''a'' then 2
      else if nt = CHR ''G'' \<or> nt = CHR ''g'' then 3
      else - 1)"

text \<open>\<^verbatim>\<open>encode_codon(const char* codon)\<close> reads \<^verbatim>\<open>codon[0..2]\<close>; the pointer is the
  list of characters from that address on.\<close>

definition encode_codon :: "string \<Rightarrow> byte" where
  "encode_codon codon =
     (let b0 = encode_nucleotide (codon ! 0);
          b1 = encode_nucleotide (codon ! 1);
          b2 = encode_nucleotide (codon ! 2)
      in if b0 < 0 \<or> b1 < 0 \<or> b2 < 0 then 255
         else of_int (push_bit 4 b0 OR push_bit 2 b1 OR b2))"

definition encode_frame_strand :: "nat \<Rightarrow> bool \<Rightarrow> byte" where
  "encode_frame_strand frame is_reverse =
     of_nat (frame AND 3) OR (if is_reverse then 0x80 else 0x00)"

subsection \<open>Quantisation\<close>

text \<open>The cast of a non-negative \<^verbatim>\<open>float\<close> to \<^verbatim>\<open>uint8_t\<close> discards the fraction.\<close>

definition quantize_damage_pct :: "real \<Rightarrow> byte" where
  "quantize_damage_pct pct =
     (if pct \<le> 0 then 0
      else if 100 \<le> pct then 200
      else of_int \<lfloor>f32 (f32 (pct * 2) + 1 / 2)\<rfloor>)"

definition dequantize_damage_pct :: "byte \<Rightarrow> real" where
  "dequantize_damage_pct q = f32 (real (unat q) * (1 / 2))"

definition quantize_probability :: "real \<Rightarrow> byte" where
  "quantize_probability p =
     (if p \<le> 0 then 0
      else if 1 \<le> p then 255
      else of_int \<lfloor>f32 (f32 (p * 255) + 1 / 2)\<rfloor>)"


subsection \<open>File structures\<close>

text \<open>
  The three packed structures. Arrays are lists of bytes (\<^verbatim>\<open>codons_5prime\<close> and
  \<^verbatim>\<open>codons_3prime\<close> have 5 elements, \<^verbatim>\<open>nt_5prime\<close> and \<^verbatim>\<open>nt_3prime\<close> have 3,
  \<^verbatim>\<open>_reserved\<close> has 27). The two \<^verbatim>\<open>float\<close> fields of the header are only copied and
  written, never computed with; they are kept as their 32-bit patterns.
\<close>

record AgdHeader =
  magic :: "32 word"
  version :: "32 word"
  num_records :: "64 word"
  num_buckets :: "64 word"
  d_max :: "32 word"
  lambda :: "32 word"
  library_type :: byte
  reserved :: "byte list"

record AgdRecord =
  id_hash :: "64 word"
  seq_len :: "16 word"
  frame_strand :: byte
  damage_pct_q :: byte
  p_damaged_q :: byte
  n_5prime :: byte
  n_3prime :: byte
  pad :: byte
  codons_5prime :: "byte list"
  codons_3prime :: "byte list"
  nt_5prime :: "byte list"
  nt_3prime :: "byte list"

record AgdBucket =
  record_offset :: "32 word"
  next_offset :: "32 word"

text \<open>
  Modelled from the spec: the upstream \<^verbatim>\<open>Gene\<close> and \<^verbatim>\<open>SampleDamageProfile\<close> types
  (declared in \<^verbatim>\<open>types.hpp\<close> and \<^verbatim>\<open>frame_selector.hpp\<close>, which are not part of the
  sources at hand). The spec gives a gene a read identifier, a frame in 0..2, a strand
  flag, a damage score and an ancient probability, and gives a profile \<open>d_max\<close>,
  \<open>lambda\<close> and a library type string. Only the fields the writer reads are kept.
\<close>

record Gene =
  gene_read_id :: string
  gene_frame :: nat
  gene_is_forward :: bool
  gene_damage_score :: real
  gene_ancient_prob :: real

record SampleDamageProfile =
  profile_d_max :: "32 word"
  profile_lambda :: "32 word"
  profile_library_type :: string

datatype exn = runtime_error string

subsection \<open>Writer: terminal codons\<close>

text \<open>
  The four loops of \<^verbatim>\<open>extract_terminal_codons\<close> act on one codon array and its
  counter; \<open>enc pos\<close> is the code stored for the codon that starts at \<open>pos\<close>.

  \<^verbatim>\<open>for (int i = 0; i < 5 && pos + 3 <= len; ++i, pos += 3) { c[i] = enc; n = i + 1; }\<close>
  is the forward-strand 5' loop and the reverse-strand 3' loop.
\<close>

function walk_forward ::
  "(nat \<Rightarrow> byte) \<Rightarrow> nat \<Rightarrow> nat \<Rightarrow> nat \<Rightarrow> byte list \<times> byte \<Rightarrow> byte list \<times> byte" where
  "walk_forward enc len i pos (codons, n) =
     (if i < 5 \<and> pos + 3 \<le> len
      then walk_forward enc len (i + 1) (pos + 3) (codons[i := enc pos], of_nat (i + 1))
      else (codons, n))"
  by pat_completeness auto
termination
  by (relation "measure (\<lambda>(enc, len, i, pos, st). 5 - i)") auto

declare walk_forward.simps [simp del]

text \<open>
  \<^verbatim>\<open>for (int i = 0; i < 5 && pos >= frame; ++i, pos -= 3)
    { c[i] = enc; n = i + 1; if (pos < 3) break; }\<close>
  is the forward-strand 3' loop. The decrement runs only when \<open>3 \<le> pos\<close>.
\<close>

function walk_backward_fwd ::
  "(nat \<Rightarrow> byte) \<Rightarrow> nat \<Rightarrow> nat \<Rightarrow> nat \<Rightarrow> byte list \<times> byte \<Rightarrow> byte list \<times> byte" where
  "walk_backward_fwd enc frame i pos (codons, n) =
     (if i < 5 \<and> frame \<le> pos
      then (if pos < 3 then (codons[i := enc pos], of_nat (i + 1))
            else walk_backward_fwd enc frame (i + 1) (pos - 3)
                   (codons[i := enc pos], of_nat (i + 1)))
      else (codons, n))"
  by pat_completeness auto
termination
  by (relation "measure (\<lambda>(enc, frame, i, pos, st). 5 - i)") auto

declare walk_backward_fwd.simps [simp del]

text \<open>
  \<^verbatim>\<open>for (int i = 0; i < 5 && pos + 3 <= len; ++i)
    { c[i] = enc; n = i + 1; if (pos < 3) break; pos -= 3; }\<close>
  is the reverse-strand 5' loop.
\<close>

function walk_backward_rev ::
  "(nat \<Rightarrow> byte) \<Rightarrow> nat \<Rightarrow> nat \<Rightarrow> nat \<Rightarrow> byte list \<times> byte \<Rightarrow> byte list \<times> byte" where
  "walk_backward_rev enc len i pos (codons, n) =
     (if i < 5 \<and> pos + 3 \<le> len
      then (if pos < 3 then (codons[i := enc pos], of_nat (i + 1))
            else walk_backward_rev enc len (i + 1) (pos - 3)
                   (codons[i := enc pos], of_nat (i + 1)))
      else (codons, n))"
  by pat_completeness auto
termination
  by (relation "measure (\<lambda>(enc, len, i, pos, st). 5 - i)") auto

declare walk_backward_rev.simps [simp del]

definition complement :: "char \<Rightarrow> char" where
  "complement nt =
     (if nt = CHR ''A'' \<or> nt = CHR ''a'' then CHR ''T''
      else if nt = CHR ''T'' \<or> nt = CHR ''t'' then CHR ''A''
      else if nt = CHR ''G'' \<or> nt = CHR ''g'' then CHR ''C''
      else if nt = CHR ''C'' \<or> nt = CHR ''c'' then CHR ''G''
      else CHR ''N'')"

text \<open>\<^verbatim>\<open>codon[j] = complement of dna[pos + 2 - j]\<close> for \<open>j = 0, 1, 2\<close>.\<close>

definition revcomp_codon :: "string \<Rightarrow> nat \<Rightarrow> string" where
  "revcomp_codon dna pos = map (\<lambda>j. complement (dna ! (pos + 2 - j))) [0, 1, 2]"

text \<open>
  The frame is one of 0, 1, 2 (it is packed into two bits and the spec's gene has no
  other); together with the guard \<open>len < 3\<close> this keeps every \<^verbatim>\<open>size_t\<close> expression
  below from wrapping, so positions are natural numbers.
\<close>

definition extract_terminal_codons :: "string \<Rightarrow> nat \<Rightarrow> bool \<Rightarrow> AgdRecord \<Rightarrow> AgdRecord" where
  "extract_terminal_codons dna frame is_reverse rec0 =
     (let rec = rec0\<lparr>codons_5prime := replicate 5 255, codons_3prime := replicate 5 255,
                     n_5prime := 0, n_3prime := 0\<rparr>;
          len = length dna
      in if len < 3 then rec
         else if \<not> is_reverse then
           (let (c5, n5) = walk_forward (\<lambda>pos. encode_codon (drop pos dna)) len 0 frame
                             (codons_5prime rec, n_5prime rec);
                rec = rec\<lparr>codons_5prime := c5, n_5prime := n5\<rparr>;
                coding_len = ((len - frame) div 3) * 3
            in if 3 \<le> coding_len then
                 (let (c3, n3) = walk_backward_fwd (\<lambda>pos. encode_codon (drop pos dna)) frame 0
                                   (frame + coding_len - 3) (codons_3prime rec, n_3prime rec)
                  in rec\<lparr>codons_3prime := c3, n_3prime := n3\<rparr>)
               else rec)
         else
           (let coding_len = ((len - frame) div 3) * 3
            in if coding_len < 3 then rec
               else
                 (let (c5, n5) = walk_backward_rev (\<lambda>pos. encode_codon (revcomp_codon dna pos))
                                   len 0 (len - frame - 3) (codons_5prime rec, n_5prime rec);
                      rec = rec\<lparr>codons_5prime := c5, n_5prime := n5\<rparr>;
                      (c3, n3) = walk_forward (\<lambda>pos. encode_codon (revcomp_codon dna pos))
                                   len 0 frame (codons_3prime rec, n_3prime rec)
                  in rec\<lparr>codons_3prime := c3, n_3prime := n3\<rparr>)))"

subsection \<open>Writer: packed terminal nucleotides\<close>

text \<open>\<^verbatim>\<open>nt[i / 4] |= (val << (6 - 2 * (i % 4)))\<close>\<close>

definition or_shift :: "byte list \<Rightarrow> nat \<Rightarrow> int \<Rightarrow> byte list" where
  "or_shift nts i val =
     nts[i div 4 := nts ! (i div 4) OR of_int (push_bit (6 - 2 * (i mod 4)) val)]"

definition nt_value :: "char \<Rightarrow> int" where
  "nt_value nt = (let val = encode_nucleotide nt in if val < 0 then 0 else val)"

definition nt_value_complement :: "char \<Rightarrow> int" where
  "nt_value_complement nt =
     (if nt = CHR ''A'' \<or> nt = CHR ''a'' then 0
      else if nt = CHR ''T'' \<or> nt = CHR ''t'' then 2
      else if nt = CHR ''G'' \<or> nt = CHR ''g'' then 1
      else if nt = CHR ''C'' \<or> nt = CHR ''c'' then 3
      else 0)"

text \<open>
  Each loop runs over \<open>i < 12 \<and> i < len\<close>. In the forward 3' loop
  \<^verbatim>\<open>pos = len - 12 + i\<close> wraps around for short sequences, and the test
  \<^verbatim>\<open>pos >= len\<close> then skips the position; the wrap-around is written out.
\<close>

definition pack_terminal_nucleotides :: "string \<Rightarrow> bool \<Rightarrow> AgdRecord \<Rightarrow> AgdRecord" where
  "pack_terminal_nucleotides dna is_reverse rec0 =
     (let rec = rec0\<lparr>nt_5prime := replicate 3 0, nt_3prime := replicate 3 0\<rparr>;
          len = length dna;
          idx = [0 ..< min 12 len]
      in if \<not> is_reverse then
           rec\<lparr>nt_5prime := foldl (\<lambda>nts i. or_shift nts i (nt_value (dna ! i)))
                              (nt_5prime rec) idx,
               nt_3prime := foldl (\<lambda>nts i.
                                (let pos = (len + 2 ^ 64 - 12 + i) mod 2 ^ 64
                                 in if len \<le> pos then nts
                                    else or_shift nts i (nt_value (dna ! pos))))
                              (nt_3prime rec) idx\<rparr>
         else
           rec\<lparr>nt_5prime := foldl (\<lambda>nts i. or_shift nts i (nt_value_complement (dna ! (len - 1 - i))))
                              (nt_5prime rec) idx,
               nt_3prime := foldl (\<lambda>nts i.
                                (let pos = 11 - i
                                 in if len \<le> pos then nts
                                    else or_shift nts i (nt_value_complement (dna ! pos))))
                              (nt_3prime rec) idx\<rparr>)"

subsection \<open>Writer: records and finalisation\<close>

record DamageIndexWriter =
  path :: string
  header :: AgdHeader
  records :: "AgdRecord list"
  finalized :: bool

definition zero_header :: AgdHeader where
  "zero_header = \<lparr>magic = 0, version = 0, num_records = 0, num_buckets = 0, d_max = 0,
     lambda = 0, library_type = 0, reserved = replicate 27 0\<rparr>"

definition zero_record :: AgdRecord where
  "zero_record = \<lparr>id_hash = 0, seq_len = 0, frame_strand = 0, damage_pct_q = 0,
     p_damaged_q = 0, n_5prime = 0, n_3prime = 0, pad = 0, codons_5prime = replicate 5 0,
     codons_3prime = replicate 5 0, nt_5prime = replicate 3 0, nt_3prime = replicate 3 0\<rparr>"

definition new_writer :: "string \<Rightarrow> SampleDamageProfile \<Rightarrow> DamageIndexWriter" where
  "new_writer p profile =
     \<lparr>path = p,
      header = zero_header\<lparr>magic := AGD_MAGIC, version := AGD_VERSION,
        d_max := profile_d_max profile, lambda := profile_lambda profile,
        library_type :=
          (if profile_library_type profile = ''single-stranded'' then 1
           else if profile_library_type profile = ''double-stranded'' then 2
           else 0)\<rparr>,
      records = [],
      finalized = False\<rparr>"

definition make_record :: "Gene \<Rightarrow> string \<Rightarrow> AgdRecord" where
  "make_record gene dna_sequence =
     (let rec = zero_record;
          base_id = strip_agp_suffix (gene_read_id gene);
          rec = rec\<lparr>id_hash := fnv1a_hash base_id\<rparr>;
          rec = rec\<lparr>seq_len := of_nat (min (length dna_sequence) 65535)\<rparr>;
          rec = rec\<lparr>frame_strand := encode_frame_strand (gene_frame gene) (\<not> gene_is_forward gene)\<rparr>;
          rec = rec\<lparr>damage_pct_q := quantize_damage_pct (gene_damage_score gene)\<rparr>;
          rec = rec\<lparr>p_damaged_q := quantize_probability (gene_ancient_prob gene)\<rparr>;
          rec = extract_terminal_codons dna_sequence (gene_frame gene) (\<not> gene_is_forward gene) rec
      in pack_terminal_nucleotides dna_sequence (\<not> gene_is_forward gene) rec)"

definition add_record :: "Gene \<Rightarrow> string \<Rightarrow> DamageIndexWriter \<Rightarrow> exn + DamageIndexWriter" where
  "add_record gene dna_sequence w =
     (if finalized w then Inl (runtime_error ''Cannot add records after finalize()'')
      else Inr (w\<lparr>records := records w @ [make_record gene dna_sequence]\<rparr>))"

subsection \<open>On-disk layout\<close>

text \<open>
  The writer emits the structures as they lie in memory and the reader overlays them on
  the mapped file. On the platforms the format is defined for (little-endian, natural
  alignment) a \<open>k\<close>-byte integer is its \<open>k\<close> little-endian bytes; the header's fields
  take 60 bytes and the compiler pads the structure to the asserted 64; bucket and record
  have no padding (8 and 32 bytes, as asserted).
\<close>

primrec le_bytes :: "nat \<Rightarrow> nat \<Rightarrow> byte list" where
  "le_bytes 0 v = []"
| "le_bytes (Suc k) v = of_nat (v mod 256) # le_bytes k (v div 256)"

primrec le_value :: "byte list \<Rightarrow> nat" where
  "le_value [] = 0"
| "le_value (b # bs) = unat b + 256 * le_value bs"

definition read_le :: "byte list \<Rightarrow> nat \<Rightarrow> nat \<Rightarrow> nat" where
  "read_le d off k = le_value (take k (drop off d))"

definition header_bytes :: "AgdHeader \<Rightarrow> byte list" where
  "header_bytes h =
     le_bytes 4 (unat (magic h)) @ le_bytes 4 (unat (version h)) @
     le_bytes 8 (unat (num_records h)) @ le_bytes 8 (unat (num_buckets h)) @
     le_bytes 4 (unat (d_max h)) @ le_bytes 4 (unat (lambda h)) @
     [library_type h] @ reserved h @ replicate 4 0"

definition bucket_bytes :: "AgdBucket \<Rightarrow> byte list" where
  "bucket_bytes b = le_bytes 4 (unat (record_offset b)) @ le_bytes 4 (unat (next_offset b))"

definition record_bytes :: "AgdRecord \<Rightarrow> byte list" where
  "record_bytes r =
     le_bytes 8 (unat (id_hash r)) @ le_bytes 2 (unat (seq_len r)) @
     [frame_strand r, damage_pct_q r, p_damaged_q r, n_5prime r, n_3prime r, pad r] @
     codons_5prime r @ codons_3prime r @ nt_5prime r @ nt_3prime r"

definition parse_header :: "byte list \<Rightarrow> AgdHeader" where
  "parse_header d =
     \<lparr>magic = of_nat (read_le d 0 4), version = of_nat (read_le d 4 4),
      num_records = of_nat (read_le d 8 8), num_buckets = of_nat (read_le d 16 8),
      d_max = of_nat (read_le d 24 4), lambda = of_nat (read_le d 28 4),
      library_type = d ! 32, reserved = take 27 (drop 33 d)\<rparr>"

definition parse_bucket :: "byte list \<Rightarrow> nat \<Rightarrow> AgdBucket" where
  "parse_bucket d off =
     \<lparr>record_offset = of_nat (read_le d off 4), next_offset = of_nat (read_le d (off + 4) 4)\<rparr>"

definition parse_record :: "byte list \<Rightarrow> nat \<Rightarrow> AgdRecord" where
  "parse_record d off =
     \<lparr>id_hash = of_nat (read_le d off 8), seq_len = of_nat (read_le d (off + 8) 2),
      frame_strand = d ! (off + 10), damage_pct_q = d ! (off + 11),
      p_damaged_q = d ! (off + 12), n_5prime = d ! (off + 13), n_3prime = d ! (off + 14),
      pad = d ! (off + 15),
      codons_5prime = take 5 (drop (off + 16) d), codons_3prime = take 5 (drop (off + 21) d),
      nt_5prime = take 3 (drop (off + 26) d), nt_3prime = take 3 (drop (off + 29) d)\<rparr>"

subsection \<open>Writer: \<^verbatim>\<open>finalize\<close>\<close>

text \<open>
  \<^verbatim>\<open>static_cast<uint64_t>(records_.size() * 1.33 + 1)\<close>: the size is converted to
  \<^verbatim>\<open>double\<close>, multiplied by the \<^verbatim>\<open>double\<close> nearest to 1.33, one is added, and the
  cast discards the fraction.
\<close>

definition bucket_count :: "nat \<Rightarrow> 64 word" where
  "bucket_count n = of_int \<lfloor>f64 (f64 (f64 (real n) * f64 (133 / 100)) + 1)\<rfloor>"

text \<open>One iteration of the insertion loop, for record index \<open>i\<close>.\<close>

definition insert_index ::
  "AgdRecord list \<Rightarrow> 64 word \<Rightarrow> AgdBucket list \<times> 32 word list \<Rightarrow> nat
     \<Rightarrow> AgdBucket list \<times> 32 word list" where
  "insert_index recs nb st i =
     (let buckets = fst st; next_chain = snd st;
          bucket_idx = unat (id_hash (recs ! i) mod nb)
      in if record_offset (buckets ! bucket_idx) = 0xFFFFFFFF then
           (buckets[bucket_idx := (buckets ! bucket_idx)\<lparr>record_offset := of_nat i\<rparr>],
            next_chain)
         else
           (buckets[bucket_idx := (buckets ! bucket_idx)\<lparr>record_offset := of_nat i\<rparr>],
            next_chain[i := record_offset (buckets ! bucket_idx)]))"

definition build_hash_table ::
  "AgdRecord list \<Rightarrow> 64 word \<Rightarrow> AgdBucket list \<times> 32 word list" where
  "build_hash_table recs nb =
     foldl (insert_index recs nb)
       (replicate (unat nb) \<lparr>record_offset = 0xFFFFFFFF, next_offset = 0xFFFFFFFF\<rparr>,
        replicate (length recs) 0xFFFFFFFF)
       [0 ..< length recs]"

text \<open>
  The output stream is the environment of \<^verbatim>\<open>finalize\<close>: it may fail to open, or fail
  while written. The result pairs the writer's new state with the exception thrown or the
  bytes written to the file (\<open>None\<close>: nothing is known to have been written, which is
  the case of the second call and of a failed write on the unchecked header-only path).
\<close>

datatype ofstream = Open_fails | Write_fails | Stream_ok

definition finalize ::
  "ofstream \<Rightarrow> DamageIndexWriter \<Rightarrow> DamageIndexWriter \<times> (exn + byte list option)" where
  "finalize out w0 =
     (if finalized w0 then (w0, Inr None)
      else
        (let w = w0\<lparr>finalized := True\<rparr>
         in if records w = [] then
              (let w = w\<lparr>header := (header w)\<lparr>num_records := 0, num_buckets := 0\<rparr>\<rparr>
               in if out = Open_fails
                  then (w, Inl (runtime_error (''Failed to open output file: '' @ path w)))
                  else if out = Write_fails then (w, Inr None)
                  else (w, Inr (Some (header_bytes (header w)))))
            else
              (let w = w\<lparr>header := (header w)\<lparr>num_records := of_nat (length (records w)),
                         num_buckets := bucket_count (length (records w))\<rparr>\<rparr>;
                   tbl = build_hash_table (records w) (num_buckets (header w))
               in if out = Open_fails
                  then (w, Inl (runtime_error (''Failed to open output file: '' @ path w)))
                  else if out = Write_fails
                  then (w, Inl (runtime_error (''Failed to write output file: '' @ path w)))
                  else (w, Inr (Some
                         (header_bytes (header w) @
                          concat (map bucket_bytes (fst tbl)) @
                          concat (map record_bytes (records w)) @
                          concat (map (\<lambda>c. le_bytes 4 (unat c)) (snd tbl))))))))"

subsection \<open>Reader\<close>

text \<open>
  What the operating system answers when the reader opens a path: whether \<^verbatim>\<open>open\<close>,
  \<^verbatim>\<open>fstat\<close> and \<^verbatim>\<open>mmap\<close> succeed, and the file's bytes.
\<close>

record file_env =
  open_ok :: bool
  fstat_ok :: bool
  mmap_ok :: bool
  contents :: "byte list"

text \<open>
  The reader keeps the mapping (\<open>None\<close> is the null pointer of a closed or moved-from
  reader) and its three section pointers, kept as offsets from the mapping's base; the
  header pointer is the base itself. Offsets are computed in \<^verbatim>\<open>size_t\<close>, 64 bits.
  A read outside the mapping is undefined behaviour in the source; in the model it
  returns the bytes that are there, if any, and no theorem below relies on it.
\<close>

record DamageIndexReader =
  data :: "byte list option"
  file_size :: nat
  buckets_off :: nat
  records_off :: nat
  chain_off :: nat

definition open_reader :: "string \<Rightarrow> file_env \<Rightarrow> exn + DamageIndexReader" where
  "open_reader p env =
     (if \<not> open_ok env then Inl (runtime_error (''Failed to open damage index: '' @ p))
      else if \<not> fstat_ok env then Inl (runtime_error (''Failed to stat damage index: '' @ p))
      else if length (contents env) < 64
      then Inl (runtime_error (''Damage index too small: '' @ p))
      else if \<not> mmap_ok env then Inl (runtime_error (''Failed to mmap damage index: '' @ p))
      else
        (let d = contents env; h = parse_header d
         in if magic h \<noteq> AGD_MAGIC
            then Inl (runtime_error (''Invalid damage index magic: '' @ p))
            else if version h \<noteq> AGD_VERSION
            then Inl (runtime_error (''Unsupported damage index version: '' @ p))
            else
              (let offset0 = (64 :: 64 word);
                   offset1 = offset0 + num_buckets h * 8;
                   offset2 = offset1 + num_records h * 32;
                   expected_size = 64 + num_buckets h * 8 + num_records h * 32 + num_records h * 4
               in if length d < unat expected_size
                  then Inl (runtime_error (''Damage index file truncated: '' @ p))
                  else Inr \<lparr>data = Some d, file_size = length d, buckets_off = unat offset0,
                             records_off = unat offset1, chain_off = unat offset2\<rparr>)))"

definition is_valid :: "DamageIndexReader \<Rightarrow> bool" where
  "is_valid rd = (data rd \<noteq> None)"

definition reader_header :: "DamageIndexReader \<Rightarrow> AgdHeader" where
  "reader_header rd = parse_header (the (data rd))"

definition record_count :: "DamageIndexReader \<Rightarrow> nat" where
  "record_count rd = unat (num_records (reader_header rd))"

definition bucket_at :: "DamageIndexReader \<Rightarrow> nat \<Rightarrow> AgdBucket" where
  "bucket_at rd i = parse_bucket (the (data rd)) (buckets_off rd + 8 * i)"

definition record_at :: "DamageIndexReader \<Rightarrow> nat \<Rightarrow> AgdRecord" where
  "record_at rd i = parse_record (the (data rd)) (records_off rd + 32 * i)"

definition chain_at :: "DamageIndexReader \<Rightarrow> nat \<Rightarrow> 32 word" where
  "chain_at rd i = of_nat (read_le (the (data rd)) (chain_off rd + 4 * i) 4)"

text \<open>
  The chain walk of \<^verbatim>\<open>find\<close>. A file whose chain entries form a cycle makes the
  source loop forever; the walk is therefore a partial function: \<open>None\<close> is "does not
  return", \<open>Some None\<close> is the null pointer, \<open>Some (Some r)\<close> is a pointer to the
  record \<open>r\<close> of the mapping.
\<close>

partial_function (option) find_chain ::
  "DamageIndexReader \<Rightarrow> 64 word \<Rightarrow> 32 word \<Rightarrow> AgdRecord option option" where
  "find_chain rd hash rec_idx =
     (if rec_idx \<noteq> 0xFFFFFFFF \<and> unat rec_idx < unat (num_records (reader_header rd))
      then (if id_hash (record_at rd (unat rec_idx)) = hash
            then Some (Some (record_at rd (unat rec_idx)))
            else find_chain rd hash (chain_at rd (unat rec_idx)))
      else Some None)"

definition find_record :: "DamageIndexReader \<Rightarrow> string \<Rightarrow> AgdRecord option option" where
  "find_record rd rid =
     (if \<not> is_valid rd \<or> num_buckets (reader_header rd) = 0 then Some None
      else
        (let base_id = strip_agp_suffix rid;
             hash = fnv1a_hash base_id;
             bucket_idx = hash mod num_buckets (reader_header rd);
             rec_idx = record_offset (bucket_at rd (unat bucket_idx))
         in find_chain rd hash rec_idx))"

definition get_record :: "DamageIndexReader \<Rightarrow> nat \<Rightarrow> AgdRecord option" where
  "get_record rd idx =
     (if \<not> is_valid rd \<or> unat (num_records (reader_header rd)) \<le> idx then None
      else Some (record_at rd idx))"

subsection \<open>Synonymous damage detection\<close>

record DamageSite =
  codon_idx :: nat
  nt_position :: nat
  observed_nt :: char
  expected_nt :: char
  is_synonymous :: bool

record SynonymousDamageResult =
  has_synonymous_damage :: bool
  synonymous_5prime :: int
  synonymous_3prime :: int
  nonsynonymous_5prime :: int
  nonsynonymous_3prime :: int
  sites :: "DamageSite list"

definition CODON_TO_AA :: string where
  "CODON_TO_AA =
     ''FFLL'' @ ''SSSS'' @ ''YY**'' @ ''CC*W'' @
     ''LLLL'' @ ''PPPP'' @ ''HHQQ'' @ ''RRRR'' @
     ''IIIM'' @ ''TTTT'' @ ''NNKK'' @ ''SSRR'' @
     ''VVVV'' @ ''AAAA'' @ ''DDEE'' @ ''GGGG''"

definition is_ct_synonymous :: "byte \<Rightarrow> nat \<Rightarrow> bool" where
  "is_ct_synonymous codon nt_pos =
     (if 63 < codon then False
      else
        (let shift = 4 - 2 * nt_pos;
             observed = drop_bit shift (unat codon) AND 3
         in if observed \<noteq> 0 then False
            else
              (let alt_codon_idx = unat codon XOR push_bit shift 1
               in CODON_TO_AA ! unat codon = CODON_TO_AA ! alt_codon_idx)))"

definition is_ga_synonymous :: "byte \<Rightarrow> nat \<Rightarrow> bool" where
  "is_ga_synonymous codon nt_pos =
     (if 63 < codon then False
      else
        (let shift = 4 - 2 * nt_pos;
             observed = drop_bit shift (unat codon) AND 3
         in if observed \<noteq> 2 then False
            else
              (let alt_codon_idx = unat codon XOR push_bit shift 1
               in CODON_TO_AA ! unat codon = CODON_TO_AA ! alt_codon_idx)))"

text \<open>
  The detector's two \<^verbatim>\<open>float\<close> parameters enter only through the test
  \<^verbatim>\<open>d_max * std::exp(-lambda * k) < 0.05f\<close> at an integer distance \<open>k\<close> from the
  terminus. The outcome of that test is the parameter \<open>below\<close> of the model:
  \<open>below k\<close> holds when the position at distance \<open>k\<close> is skipped.
\<close>

definition scan_5prime_nt ::
  "(nat \<Rightarrow> bool) \<Rightarrow> nat \<Rightarrow> byte \<Rightarrow> SynonymousDamageResult \<Rightarrow> nat \<Rightarrow> SynonymousDamageResult" where
  "scan_5prime_nt below i codon result nt_pos =
     (let read_pos = i * 3 + nt_pos
      in if below read_pos then result
         else
           (let shift = 4 - 2 * nt_pos;
                observed = drop_bit shift (unat codon) AND 3
            in if observed = 0 then
                 (let synonymous = is_ct_synonymous codon nt_pos;
                      site = \<lparr>codon_idx = i, nt_position = nt_pos, observed_nt = CHR ''T'',
                              expected_nt = CHR ''C'', is_synonymous = synonymous\<rparr>;
                      result = result\<lparr>sites := sites result @ [site]\<rparr>
                  in if synonymous
                     then result\<lparr>synonymous_5prime := synonymous_5prime result + 1,
                                 has_synonymous_damage := True\<rparr>
                     else result\<lparr>nonsynonymous_5prime := nonsynonymous_5prime result + 1\<rparr>)
               else result))"

definition scan_3prime_nt ::
  "(nat \<Rightarrow> bool) \<Rightarrow> nat \<Rightarrow> byte \<Rightarrow> SynonymousDamageResult \<Rightarrow> nat \<Rightarrow> SynonymousDamageResult" where
  "scan_3prime_nt below i codon result nt_pos =
     (let dist_from_3prime = i * 3 + (2 - nt_pos)
      in if below dist_from_3prime then result
         else
           (let shift = 4 - 2 * nt_pos;
                observed = drop_bit shift (unat codon) AND 3
            in if observed = 2 then
                 (let synonymous = is_ga_synonymous codon nt_pos;
                      site = \<lparr>codon_idx = i, nt_position = nt_pos, observed_nt = CHR ''A'',
                              expected_nt = CHR ''G'', is_synonymous = synonymous\<rparr>;
                      result = result\<lparr>sites := sites result @ [site]\<rparr>
                  in if synonymous
                     then result\<lparr>synonymous_3prime := synonymous_3prime result + 1,
                                 has_synonymous_damage := True\<rparr>
                     else result\<lparr>nonsynonymous_3prime := nonsynonymous_3prime result + 1\<rparr>)
               else result))"

definition scan_5prime_codon ::
  "(nat \<Rightarrow> bool) \<Rightarrow> AgdRecord \<Rightarrow> SynonymousDamageResult \<Rightarrow> nat \<Rightarrow> SynonymousDamageResult" where
  "scan_5prime_codon below rec result i =
     (let codon = codons_5prime rec ! i
      in if 63 < codon then result
         else foldl (scan_5prime_nt below i codon) result [0, 1, 2])"

definition scan_3prime_codon ::
  "(nat \<Rightarrow> bool) \<Rightarrow> AgdRecord \<Rightarrow> SynonymousDamageResult \<Rightarrow> nat \<Rightarrow> SynonymousDamageResult" where
  "scan_3prime_codon below rec result i =
     (let codon = codons_3prime rec ! i
      in if 63 < codon then result
         else foldl (scan_3prime_nt below i codon) result [0, 1, 2])"

definition empty_result :: SynonymousDamageResult where
  "empty_result = \<lparr>has_synonymous_damage = False, synonymous_5prime = 0,
     synonymous_3prime = 0, nonsynonymous_5prime = 0, nonsynonymous_3prime = 0, sites = []\<rparr>"

text \<open>
  The loops read \<^verbatim>\<open>codons_5prime[i]\<close> for \<open>i < n_5prime\<close> and
  \<^verbatim>\<open>codons_3prime[i]\<close> for \<open>i < n_3prime\<close>; a count above 5 reads past a 5-element
  array, which is undefined behaviour: the model answers \<open>None\<close> there.
\<close>

definition detect_synonymous_damage ::
  "AgdRecord \<Rightarrow> (nat \<Rightarrow> bool) \<Rightarrow> SynonymousDamageResult option" where
  "detect_synonymous_damage rec below =
     (if 5 < unat (n_5prime rec) \<or> 5 < unat (n_3prime rec) then None
      else Some (foldl (scan_3prime_codon below rec)
                   (foldl (scan_5prime_codon below rec) empty_result [0 ..< unat (n_5prime rec)])
                   [0 ..< unat (n_3prime rec)]))"

subsection \<open>Vocabulary of the claims\<close>

text \<open>
  Every failure of the reader's constructor throws \<^verbatim>\<open>std::runtime_error\<close>; the failures
  differ by their message only. The format description sorts them into format errors and
  I/O errors; the two sets below do so by message.
\<close>

definition format_errors :: "string \<Rightarrow> exn set" where
  "format_errors p =
     {runtime_error (''Damage index too small: '' @ p),
      runtime_error (''Invalid damage index magic: '' @ p),
      runtime_error (''Unsupported damage index version: '' @ p),
      runtime_error (''Damage index file truncated: '' @ p)}"

definition io_errors :: "string \<Rightarrow> exn set" where
  "io_errors p =
     {runtime_error (''Failed to open damage index: '' @ p),
      runtime_error (''Failed to stat damage index: '' @ p),
      runtime_error (''Failed to mmap damage index: '' @ p)}"

text \<open>A file that opens, stats and maps without trouble.\<close>

definition healthy :: "byte list \<Rightarrow> file_env" where
  "healthy d = \<lparr>open_ok = True, fstat_ok = True, mmap_ok = True, contents = d\<rparr>"

text \<open>The size a header declares, as a natural number:
  \<open>header + buckets * 8 + records * 32 + records * 4\<close>.\<close>

definition declared_size :: "byte list \<Rightarrow> nat" where
  "declared_size d = 64 + unat (num_buckets (parse_header d)) * 8 +
     unat (num_records (parse_header d)) * 32 + unat (num_records (parse_header d)) * 4"

text \<open>
  Slot \<open>j\<close> of a codon array is occupied when the read has a \<open>(j + 1)\<close>-th complete
  codon in its frame: at either end, on either strand, that is
  \<open>frame + 3 * (j + 1) \<le> len\<close>. An occupied slot holds the code of that codon, which
  is the sentinel 255 when the codon has a base other than A, C, G, T.
\<close>

definition codon_present :: "string \<Rightarrow> nat \<Rightarrow> nat \<Rightarrow> bool" where
  "codon_present dna frame j = (frame + 3 * (j + 1) \<le> length dna)"

text \<open>The sites one nucleotide position adds to the detector's result.\<close>

definition new_sites_5prime :: "(nat \<Rightarrow> bool) \<Rightarrow> nat \<Rightarrow> byte \<Rightarrow> nat \<Rightarrow> DamageSite list" where
  "new_sites_5prime below i codon nt_pos =
     (if \<not> below (i * 3 + nt_pos) \<and> drop_bit (4 - 2 * nt_pos) (unat codon) AND 3 = 0
      then [\<lparr>codon_idx = i, nt_position = nt_pos, observed_nt = CHR ''T'',
              expected_nt = CHR ''C'', is_synonymous = is_ct_synonymous codon nt_pos\<rparr>]
      else [])"

definition new_sites_3prime :: "(nat \<Rightarrow> bool) \<Rightarrow> nat \<Rightarrow> byte \<Rightarrow> nat \<Rightarrow> DamageSite list" where
  "new_sites_3prime below i codon nt_pos =
     (if \<not> below (i * 3 + (2 - nt_pos)) \<and> drop_bit (4 - 2 * nt_pos) (unat codon) AND 3 = 2
      then [\<lparr>codon_idx = i, nt_position = nt_pos, observed_nt = CHR ''A'',
              expected_nt = CHR ''G'', is_synonymous = is_ga_synonymous codon nt_pos\<rparr>]
      else [])"

subsection \<open>Example inputs\<close>

definition example_profile :: SampleDamageProfile where
  "example_profile = \<lparr>profile_d_max = 0x3E99999A, profile_lambda = 0x3E99999A,
     profile_library_type = ''double-stranded''\<rparr>"

definition example_gene :: Gene where
  "example_gene = \<lparr>gene_read_id = ''read42_+_1'', gene_frame = 1, gene_is_forward = True,
     gene_damage_score = 0, gene_ancient_prob = 0\<rparr>"

definition example_writer :: DamageIndexWriter where
  "example_writer = new_writer ''out.agd'' example_profile"

text \<open>A header-only file whose bucket count, times 8, is \<open>2 ^ 64\<close>.\<close>

definition wrapped_file :: "byte list" where
  "wrapped_file = header_bytes (zero_header\<lparr>magic := AGD_MAGIC, version := AGD_VERSION,
     num_buckets := 2 ^ 61\<rparr>)"

text \<open>The header-only file of an index without records.\<close>

definition empty_index_file :: "byte list" where
  "empty_index_file = header_bytes (zero_header\<lparr>magic := AGD_MAGIC, version := AGD_VERSION\<rparr>)"

text \<open>A record with the codons TTT and TAT at its 5' end, and a damage profile under
  which the six positions nearest to a terminus pass the probability threshold.\<close>

definition example_below :: "nat \<Rightarrow> bool" where
  "example_below k = (6 \<le> k)"

definition example_codon_record :: AgdRecord where
  "example_codon_record = zero_record\<lparr>n_5prime := 2,
     codons_5prime := [encode_codon ''TTT'', encode_codon ''TAT'', 255, 255, 255],
     codons_3prime := replicate 5 255\<rparr>"

text \<open>
  The bucket count as the format description words it: \<open>round(n * 1.33) + 1\<close>, with
  the exact product rounded half up.
\<close>

definition spec_bucket_count :: "nat \<Rightarrow> nat" where
  "spec_bucket_count n = nat \<lfloor>real n * (133 / 100) + 1 / 2\<rfloor> + 1"

text \<open>A writer holding two records.\<close>

definition two_record_writer :: DamageIndexWriter where
  "two_record_writer = example_writer\<lparr>records := [zero_record, zero_record]\<rparr>"

subsection \<open>The written file and the lookup after writing\<close>

text \<open>
  The arrays of a record have the sizes the structure declares (5, 5, 3 and 3 bytes);
  the model keeps them as lists, and a record with lists of these lengths takes 32 bytes.
\<close>

definition wf_record :: "AgdRecord \<Rightarrow> bool" where
  "wf_record r = (length (codons_5prime r) = 5 \<and> length (codons_3prime r) = 5 \<and>
     length (nt_5prime r) = 3 \<and> length (nt_3prime r) = 3)"

text \<open>The file written for a header, a bucket array, a record array and a chain array.\<close>

definition file_image ::
  "AgdHeader \<Rightarrow> AgdBucket list \<Rightarrow> AgdRecord list \<Rightarrow> 32 word list \<Rightarrow> byte list" where
  "file_image h buckets recs chain =
     header_bytes h @ concat (map bucket_bytes buckets) @ concat (map record_bytes recs) @
     concat (map (\<lambda>c. le_bytes 4 (unat c)) chain)"

text \<open>The reader that results from opening such a file with \<open>nb\<close> buckets and
  \<open>nr\<close> records.\<close>

definition image_reader :: "byte list \<Rightarrow> nat \<Rightarrow> nat \<Rightarrow> DamageIndexReader" where
  "image_reader d nb nr = \<lparr>data = Some d, file_size = length d, buckets_off = 64,
     records_off = 64 + 8 * nb, chain_off = 64 + 8 * nb + 32 * nr\<rparr>"

text \<open>
  Record \<open>j\<close> lies on the chain that starts at index \<open>idx\<close>: following the chain
  array from \<open>idx\<close>, through indices that are not the end marker and lie below
  \<open>bound\<close>, arrives at \<open>j\<close>. This is the path the walk of \<^verbatim>\<open>find\<close> follows.
\<close>

inductive reaches :: "32 word list \<Rightarrow> nat \<Rightarrow> 32 word \<Rightarrow> nat \<Rightarrow> bool"
  for chain :: "32 word list" and bound :: nat where
  here: "idx \<noteq> 0xFFFFFFFF \<Longrightarrow> unat idx = j \<Longrightarrow> j < bound \<Longrightarrow> reaches chain bound idx j"
| step: "idx \<noteq> 0xFFFFFFFF \<Longrightarrow> unat idx < bound \<Longrightarrow>
         reaches chain bound (chain ! unat idx) j \<Longrightarrow> reaches chain bound idx j"

text \<open>A sequence of \<^verbatim>\<open>add_record\<close> calls, one per gene and DNA sequence, in order.\<close>

fun add_records ::
  "(Gene \<times> string) list \<Rightarrow> DamageIndexWriter \<Rightarrow> exn + DamageIndexWriter" where
  "add_records [] w = Inr w"
| "add_records ((gene, dna) # rest) w =
     (case add_record gene dna w of Inl e \<Rightarrow> Inl e | Inr w' \<Rightarrow> add_records rest w')"

text \<open>
  The lookup after writing: a new writer, the \<^verbatim>\<open>add_record\<close> calls, \<^verbatim>\<open>finalize\<close> on
  a stream that opens and writes, a reader opened on the bytes written, and \<^verbatim>\<open>find\<close>.
  \<open>None\<close> stands for an exception anywhere on the way, or for a walk that does not
  return; \<open>Some None\<close> is the null pointer.
\<close>

definition find_after_write ::
  "string \<Rightarrow> SampleDamageProfile \<Rightarrow> (Gene \<times> string) list \<Rightarrow> string
     \<Rightarrow> AgdRecord option option" where
  "find_after_write p profile inputs read_id =
     (case add_records inputs (new_writer p profile) of
        Inl e \<Rightarrow> None
      | Inr w \<Rightarrow>
          (case snd (finalize Stream_ok w) of
             Inr (Some bytes) \<Rightarrow>
               (case open_reader p (healthy bytes) of
                  Inl e \<Rightarrow> None
                | Inr rd \<Rightarrow> find_record rd read_id)
           | _ \<Rightarrow> None))"

text \<open>Two reads with the same identifier, which share a bucket; and \<open>2 ^ 32\<close> reads.\<close>

definition colliding_input :: "(Gene \<times> string) list" where
  "colliding_input = [(example_gene, ''ATGAAATTT''), (example_gene, ''CCC'')]"

definition overflow_input :: "(Gene \<times> string) list" where
  "overflow_input = replicate (2 ^ 32) (example_gene, ''ATGAAATTT'')"

section \<open>Properties\<close>

subsection \<open>Fields untouched by codon extraction and nucleotide packing\<close>

lemma seq_len_extract [simp]:
  "seq_len (extract_terminal_codons dna frame is_reverse rec) = seq_len rec"
  by (simp add: extract_terminal_codons_def Let_def split: prod.splits)

lemma seq_len_pack [simp]:
  "seq_len (pack_terminal_nucleotides dna is_reverse rec) = seq_len rec"
  by (simp add: pack_terminal_nucleotides_def Let_def)

lemma id_hash_extract [simp]:
  "id_hash (extract_terminal_codons dna frame is_reverse rec) = id_hash rec"
  by (simp add: extract_terminal_codons_def Let_def split: prod.splits)

lemma id_hash_pack [simp]:
  "id_hash (pack_terminal_nucleotides dna is_reverse rec) = id_hash rec"
  by (simp add: pack_terminal_nucleotides_def Let_def)

lemma seq_len_make_record:
  "unat (seq_len (make_record gene dna)) = min (length dna) 65535"
proof -
  have "min (length dna) 65535 < 2 ^ 16" by simp
  then have "unat (of_nat (min (length dna) 65535) :: 16 word) = min (length dna) 65535"
    by (simp add: unat_of_nat)
  then show ?thesis by (simp add: make_record_def Let_def)
qed

lemma id_hash_make_record:
  "id_hash (make_record gene dna) = fnv1a_hash (strip_agp_suffix (gene_read_id gene))"
  by (simp add: make_record_def Let_def)

subsection \<open>Sequence length\<close>

text \<open>
  Claim C10. Every record appended by \<open>add_record\<close> stores, as \<open>seq_len\<close>, the
  length of the DNA sequence capped at 65535: a sequence longer than 65535 bases
  saturates, it does not wrap around modulo \<open>2 ^ 16\<close>.
\<close>

theorem seq_len_saturates:
  assumes "add_record gene dna w = Inr w'"
  shows "records w' = records w @ [make_record gene dna] \<and>
         unat (seq_len (last (records w'))) = min (length dna) 65535"
proof -
  from assms have "w' = w\<lparr>records := records w @ [make_record gene dna]\<rparr>"
    by (simp add: add_record_def split: if_splits)
  then show ?thesis by (simp add: seq_len_make_record)
qed

theorem seq_len_saturates_witness:
  "add_record example_gene (replicate 70000 CHR ''A'') example_writer =
     Inr (example_writer\<lparr>records := [make_record example_gene (replicate 70000 CHR ''A'')]\<rparr>) \<and>
   unat (seq_len (last (records
     (example_writer\<lparr>records := [make_record example_gene (replicate 70000 CHR ''A'')]\<rparr>)))) = 65535"
proof -
  have a: "add_record example_gene (replicate 70000 CHR ''A'') example_writer =
     Inr (example_writer\<lparr>records := [make_record example_gene (replicate 70000 CHR ''A'')]\<rparr>)"
    by (simp add: add_record_def example_writer_def new_writer_def)
  show ?thesis using a seq_len_saturates [OF a] by simp
qed

subsection \<open>Key derivation\<close>

lemma unat_of_char64: "unat (of_char c :: 64 word) = of_char c"
proof -
  have "(of_char c :: nat) < 2 ^ 64"
    by (rule less_trans [OF nat_of_char_less_256]) simp
  moreover have "(of_char c :: 64 word) = of_nat (of_char c)"
    by (simp add: of_nat_of_char)
  ultimately show ?thesis
    by (simp add: unat_of_nat)
qed

lemma fnv_fold:
  "unat (foldl (\<lambda>hash c. (hash XOR of_char c) * FNV_PRIME) h str) =
     fnv1a_spec (unat h) (map of_char str)"
proof (induction str arbitrary: h)
  case Nil
  then show ?case by simp
next
  case (Cons c str)
  have "unat ((h XOR of_char c) * FNV_PRIME) =
      ((unat h XOR of_char c) * 1099511628211) mod 2 ^ 64"
    by (simp add: unat_word_ariths FNV_PRIME_def unsigned_xor_eq unat_of_char64)
  then show ?case using Cons.IH [of "(h XOR of_char c) * FNV_PRIME"] by simp
qed

lemma fnv1a_hash_refines:
  "unat (fnv1a_hash str) = fnv1a_spec 14695981039346656037 (map of_char str)"
  unfolding fnv1a_hash_def fnv_fold by (simp add: FNV_OFFSET_BASIS_def)

lemma strip_pattern:
  assumes "s = CHR ''+'' \<or> s = CHR ''-''" "d = CHR ''0'' \<or> d = CHR ''1'' \<or> d = CHR ''2''"
  shows "strip_agp_suffix (base @ [CHR ''_'', s, CHR ''_'', d]) = base"
  using assms by (auto simp add: strip_agp_suffix_def nth_append)

lemma list_of_length_4: "length xs = 4 \<Longrightarrow> \<exists>a b c d. xs = [a, b, c, d]"
  by (auto simp add: eval_nat_numeral length_Suc_conv)

lemma digit_cases:
  assumes "(48::nat) \<le> of_char d" "of_char d \<le> (50::nat)"
  shows "d = CHR ''0'' \<or> d = CHR ''1'' \<or> d = CHR ''2''"
proof -
  have "(of_char d :: nat) = 48 \<or> (of_char d :: nat) = 49 \<or> (of_char d :: nat) = 50"
    using assms by arith
  then have "(of_char d :: nat) = of_char CHR ''0'' \<or> (of_char d :: nat) = of_char CHR ''1''
      \<or> (of_char d :: nat) = of_char CHR ''2''"
    by simp
  then show ?thesis by (simp only: of_char_eq_iff)
qed

lemma strip_no_suffix:
  assumes "\<not> (\<exists>base s d. rid = base @ [CHR ''_'', s, CHR ''_'', d] \<and>
        (s = CHR ''+'' \<or> s = CHR ''-'') \<and> (d = CHR ''0'' \<or> d = CHR ''1'' \<or> d = CHR ''2''))"
  shows "strip_agp_suffix rid = rid"
proof (rule ccontr)
  assume neq: "strip_agp_suffix rid \<noteq> rid"
  let ?pos = "length rid - 4"
  from neq have len: "4 \<le> length rid"
    and c0: "rid ! ?pos = CHR ''_''"
    and c1: "rid ! (?pos + 1) = CHR ''+'' \<or> rid ! (?pos + 1) = CHR ''-''"
    and c2: "rid ! (?pos + 2) = CHR ''_''"
    and c3: "(48::nat) \<le> of_char (rid ! (?pos + 3))" "of_char (rid ! (?pos + 3)) \<le> (50::nat)"
    by (auto simp add: strip_agp_suffix_def Let_def split: if_splits)
  have split: "rid = take ?pos rid @ drop ?pos rid" by simp
  have "length (drop ?pos rid) = 4" using len by simp
  then obtain a b c d where suf: "drop ?pos rid = [a, b, c, d]"
    using list_of_length_4 by blast
  have nth: "\<And>k. k < 4 \<Longrightarrow> rid ! (?pos + k) = [a, b, c, d] ! k"
    using len suf by (metis nth_drop diff_le_self)
  have a: "a = CHR ''_''" using c0 nth [of 0] by simp
  have b: "b = CHR ''+'' \<or> b = CHR ''-''" using c1 nth [of 1] by simp
  have c: "c = CHR ''_''" using c2 nth [of 2] by simp
  have d3: "rid ! (?pos + 3) = d" using nth [of 3] by simp
  have d: "d = CHR ''0'' \<or> d = CHR ''1'' \<or> d = CHR ''2''"
    using c3 d3 digit_cases by simp
  from assms split suf a b c d show False by metis
qed

text \<open>The three-character form without the second underscore is not a suffix the
  function strips.\<close>

lemma strip_three_character_form: "strip_agp_suffix ''read42_+1'' = ''read42_+1''"
  by (simp add: strip_agp_suffix_def)

text \<open>
  Claim C7. The key of a read is the 64-bit FNV-1a hash of its identifier with the
  trailing strand/frame suffix removed. The suffix is underscore, \<open>+\<close> or \<open>-\<close>,
  underscore, and a digit 0, 1 or 2: an identifier ending in it loses exactly these four
  characters, any other identifier is unchanged (\<open>read42_+_1\<close> gives \<open>read42\<close>,
  \<open>read42\<close> stays). The writer stores the hash of the stripped identifier in the
  record, the reader's lookup computes the same hash and uses nothing else of the
  identifier, and the source's hash agrees with FNV-1a on the identifier's bytes.
\<close>

theorem key_derivation:
  "strip_agp_suffix ''read42_+_1'' = ''read42'' \<and>
   strip_agp_suffix ''read42'' = ''read42'' \<and>
   ((s = CHR ''+'' \<or> s = CHR ''-'') \<and> (d = CHR ''0'' \<or> d = CHR ''1'' \<or> d = CHR ''2'') \<longrightarrow>
      strip_agp_suffix (base @ [CHR ''_'', s, CHR ''_'', d]) = base) \<and>
   (\<not> (\<exists>base s d. rid = base @ [CHR ''_'', s, CHR ''_'', d] \<and>
        (s = CHR ''+'' \<or> s = CHR ''-'') \<and> (d = CHR ''0'' \<or> d = CHR ''1'' \<or> d = CHR ''2'')) \<longrightarrow>
      strip_agp_suffix rid = rid) \<and>
   id_hash (make_record gene dna) = fnv1a_hash (strip_agp_suffix (gene_read_id gene)) \<and>
   find_record rd rid =
     (if \<not> is_valid rd \<or> num_buckets (reader_header rd) = 0 then Some None
      else find_chain rd (fnv1a_hash (strip_agp_suffix rid))
             (record_offset (bucket_at rd
                (unat (fnv1a_hash (strip_agp_suffix rid) mod num_buckets (reader_header rd)))))) \<and>
   unat (fnv1a_hash str) = fnv1a_spec 14695981039346656037 (map of_char str)"
proof -
  have "strip_agp_suffix ''read42_+_1'' = ''read42''"
    by (simp add: strip_agp_suffix_def)
  moreover have "strip_agp_suffix ''read42'' = ''read42''"
    by (simp add: strip_agp_suffix_def)
  moreover have "find_record rd rid =
     (if \<not> is_valid rd \<or> num_buckets (reader_header rd) = 0 then Some None
      else find_chain rd (fnv1a_hash (strip_agp_suffix rid))
             (record_offset (bucket_at rd
                (unat (fnv1a_hash (strip_agp_suffix rid) mod num_buckets (reader_header rd))))))"
    by (simp add: find_record_def Let_def)
  ultimately show ?thesis
    using strip_pattern [of s d base] strip_no_suffix [of rid]
      id_hash_make_record [of gene dna] fnv1a_hash_refines [of str]
    by blast
qed

theorem key_derivation_witness:
  "(CHR ''-'' = CHR ''+'' \<or> CHR ''-'' = CHR ''-'') \<and>
   (CHR ''2'' = CHR ''0'' \<or> CHR ''2'' = CHR ''1'' \<or> CHR ''2'' = CHR ''2'') \<and>
   strip_agp_suffix (''read7'' @ [CHR ''_'', CHR ''-'', CHR ''_'', CHR ''2'']) = ''read7'' \<and>
   \<not> (\<exists>base s d. ''read42_+1'' = base @ [CHR ''_'', s, CHR ''_'', d] \<and>
        (s = CHR ''+'' \<or> s = CHR ''-'') \<and> (d = CHR ''0'' \<or> d = CHR ''1'' \<or> d = CHR ''2'')) \<and>
   strip_agp_suffix ''read42_+1'' = ''read42_+1''"
proof -
  have no: "\<not> (\<exists>base s d. ''read42_+1'' = base @ [CHR ''_'', s, CHR ''_'', d] \<and>
        (s = CHR ''+'' \<or> s = CHR ''-'') \<and> (d = CHR ''0'' \<or> d = CHR ''1'' \<or> d = CHR ''2''))"
    by (auto simp add: Cons_eq_append_conv)
  show ?thesis
    using no key_derivation [of "CHR ''-''" "CHR ''2''" "''read7''" "''read42_+1''"]
    by simp
qed

subsection \<open>Little-endian fields and the header\<close>

lemma length_le_bytes [simp]: "length (le_bytes k v) = k"
  by (induction k arbitrary: v) auto

lemma le_value_le_bytes: "le_value (le_bytes k v) = v mod 256 ^ k"
proof (induction k arbitrary: v)
  case 0
  then show ?case by simp
next
  case (Suc k)
  have "unat (of_nat (v mod 256) :: byte) = v mod 256"
    by (simp add: unat_of_nat)
  then show ?case using Suc.IH [of "v div 256"]
    by (simp add: mod_mult2_eq)
qed

lemma read_le_bytes32: "of_nat (le_value (le_bytes 4 (unat w))) = (w :: 32 word)"
proof -
  have "unat w < 256 ^ 4" using unsigned_less [of w] by simp
  then show ?thesis by (simp add: le_value_le_bytes)
qed

lemma read_le_bytes64: "of_nat (le_value (le_bytes 8 (unat w))) = (w :: 64 word)"
proof -
  have "unat w < 256 ^ 8" using unsigned_less [of w] by simp
  then show ?thesis by (simp add: le_value_le_bytes)
qed

lemma read_le_bytes16: "of_nat (le_value (le_bytes 2 (unat w))) = (w :: 16 word)"
proof -
  have "unat w < 256 ^ 2" using unsigned_less [of w] by simp
  then show ?thesis by (simp add: le_value_le_bytes)
qed

lemma length_header_bytes: "length (reserved h) = 27 \<Longrightarrow> length (header_bytes h) = 64"
  by (simp add: header_bytes_def)

lemma parse_header_bytes:
  assumes "length (reserved h) = 27"
  shows "parse_header (header_bytes h @ rest) = h"
  using assms
  by (simp add: parse_header_def header_bytes_def read_le_def read_le_bytes32
      read_le_bytes64 nth_append)

lemma parse_header_take: "64 \<le> k \<Longrightarrow> parse_header (take k d) = parse_header d"
  by (simp add: parse_header_def read_le_def drop_take min_def)

lemma new_writer_reserved [simp]: "length (reserved (header (new_writer p profile))) = 27"
  by (simp add: new_writer_def zero_header_def)

subsection \<open>Opening a file\<close>

lemma open_reader_healthy:
  "open_reader p (healthy d) =
     (if length d < 64 then Inl (runtime_error (''Damage index too small: '' @ p))
      else if magic (parse_header d) \<noteq> AGD_MAGIC
      then Inl (runtime_error (''Invalid damage index magic: '' @ p))
      else if version (parse_header d) \<noteq> AGD_VERSION
      then Inl (runtime_error (''Unsupported damage index version: '' @ p))
      else if length d < unat (64 + num_buckets (parse_header d) * 8 +
                 num_records (parse_header d) * 32 + num_records (parse_header d) * 4)
      then Inl (runtime_error (''Damage index file truncated: '' @ p))
      else Inr \<lparr>data = Some d, file_size = length d, buckets_off = 64,
                 records_off = unat (64 + num_buckets (parse_header d) * 8),
                 chain_off = unat (64 + num_buckets (parse_header d) * 8 +
                   num_records (parse_header d) * 32)\<rparr>)"
  by (simp add: open_reader_def healthy_def Let_def)

lemma expected_size_no_wrap:
  assumes "declared_size d < 2 ^ 64"
  shows "unat (64 + num_buckets (parse_header d) * 8 +
                 num_records (parse_header d) * 32 + num_records (parse_header d) * 4)
         = declared_size d"
proof -
  let ?nb = "num_buckets (parse_header d)" and ?nr = "num_records (parse_header d)"
  have "64 + ?nb * 8 + ?nr * 32 + ?nr * 4 = (of_nat (declared_size d) :: 64 word)"
    by (simp add: declared_size_def)
  then have "unat (64 + ?nb * 8 + ?nr * 32 + ?nr * 4) = declared_size d mod 2 ^ 64"
    by (simp only: unat_of_nat) simp
  then show ?thesis using assms by simp
qed

lemma open_format_error_iff:
  assumes "declared_size d < 2 ^ 64"
  shows "(\<exists>e \<in> format_errors p. open_reader p (healthy d) = Inl e) \<longleftrightarrow>
           (length d < 64 \<or> magic (parse_header d) \<noteq> 0x01444741 \<or>
            version (parse_header d) \<noteq> 1 \<or> length d < declared_size d)"
  unfolding open_reader_healthy expected_size_no_wrap [OF assms]
  by (auto simp add: format_errors_def AGD_MAGIC_def AGD_VERSION_def)

lemma open_success_iff:
  assumes "declared_size d < 2 ^ 64"
  shows "(\<exists>rd. open_reader p (healthy d) = Inr rd) \<longleftrightarrow>
           \<not> (length d < 64 \<or> magic (parse_header d) \<noteq> 0x01444741 \<or>
            version (parse_header d) \<noteq> 1 \<or> length d < declared_size d)"
  unfolding open_reader_healthy expected_size_no_wrap [OF assms]
  by (auto simp add: AGD_MAGIC_def AGD_VERSION_def)

lemma open_io_error_iff:
  "(\<exists>e \<in> io_errors p. open_reader p env = Inl e) \<longleftrightarrow>
     (\<not> open_ok env \<or> \<not> fstat_ok env \<or> (64 \<le> length (contents env) \<and> \<not> mmap_ok env))"
  by (auto simp add: open_reader_def io_errors_def Let_def)

lemma format_io_disjoint: "format_errors p \<inter> io_errors p = {}"
  by (simp add: format_errors_def io_errors_def)

lemma truncation_detected:
  assumes ok: "open_reader p (healthy d) = Inr rd"
    and exact: "length d = declared_size d"
    and nowrap: "declared_size d < 2 ^ 64"
    and k: "k < length d"
  shows "\<exists>e \<in> format_errors p. open_reader p (healthy (take k d)) = Inl e"
proof (cases "k < 64")
  case True
  then show ?thesis using k by (simp add: open_reader_healthy format_errors_def)
next
  case False
  then have ph: "parse_header (take k d) = parse_header d"
    by (simp add: parse_header_take)
  from ok have "magic (parse_header d) = AGD_MAGIC" "version (parse_header d) = AGD_VERSION"
    by (auto simp add: open_reader_healthy split: if_splits)
  then show ?thesis using k False exact expected_size_no_wrap [OF nowrap]
    by (simp add: open_reader_healthy ph format_errors_def)
qed

lemma empty_index_file_parse:
  "parse_header empty_index_file = zero_header\<lparr>magic := AGD_MAGIC, version := AGD_VERSION\<rparr>"
  "length empty_index_file = 64"
proof -
  let ?h = "zero_header\<lparr>magic := AGD_MAGIC, version := AGD_VERSION\<rparr>"
  have res: "length (reserved ?h) = 27" by (simp add: zero_header_def)
  show "parse_header empty_index_file = ?h"
    using parse_header_bytes [OF res, of "[]"] by (simp add: empty_index_file_def)
  show "length empty_index_file = 64"
    using res by (simp add: empty_index_file_def length_header_bytes)
qed

text \<open>
  Claim C5, as amended. Provided the size a header declares stays below \<open>2 ^ 64\<close> (the
  reader adds the section sizes in 64-bit arithmetic), opening a file that the operating
  system opens, stats and maps fails with one of the four format messages exactly when the
  file is shorter than the 64-byte header, or the magic is not \<open>0x01444741\<close>, or the
  version is not 1, or the file is shorter than the declared size; otherwise it succeeds.
  The exception is a \<^verbatim>\<open>std::runtime_error\<close> in every case, as it is for the failures of
  \<^verbatim>\<open>open\<close>, \<^verbatim>\<open>fstat\<close> and \<^verbatim>\<open>mmap\<close>: the two kinds share the exception type and
  differ by their messages, which are disjoint. A file that opens and is exactly as long
  as it declares fails to open once it is cut short by at least one byte.
\<close>

theorem open_validation:
  assumes "declared_size d < 2 ^ 64"
  shows "((\<exists>e \<in> format_errors p. open_reader p (healthy d) = Inl e) \<longleftrightarrow>
            (length d < 64 \<or> magic (parse_header d) \<noteq> 0x01444741 \<or>
             version (parse_header d) \<noteq> 1 \<or> length d < declared_size d)) \<and>
         ((\<exists>rd. open_reader p (healthy d) = Inr rd) \<longleftrightarrow>
            \<not> (length d < 64 \<or> magic (parse_header d) \<noteq> 0x01444741 \<or>
             version (parse_header d) \<noteq> 1 \<or> length d < declared_size d)) \<and>
         ((\<exists>e \<in> io_errors p. open_reader p env = Inl e) \<longleftrightarrow>
            (\<not> open_ok env \<or> \<not> fstat_ok env \<or>
             (64 \<le> length (contents env) \<and> \<not> mmap_ok env))) \<and>
         format_errors p \<inter> io_errors p = {} \<and>
         (\<forall>k. (\<exists>rd. open_reader p (healthy d) = Inr rd) \<and> length d = declared_size d \<and>
              k < length d \<longrightarrow>
              (\<exists>e \<in> format_errors p. open_reader p (healthy (take k d)) = Inl e))"
  using open_format_error_iff [OF assms, of p] open_success_iff [OF assms, of p]
    open_io_error_iff [of p env] format_io_disjoint [of p]
    truncation_detected [of p d _ _, OF _ _ assms]
  by blast

theorem open_validation_witness:
  "declared_size empty_index_file < 2 ^ 64 \<and>
   (\<exists>rd. open_reader ''x.agd'' (healthy empty_index_file) = Inr rd) \<and>
   length empty_index_file = declared_size empty_index_file \<and>
   (\<exists>e \<in> format_errors ''x.agd''.
      open_reader ''x.agd'' (healthy (take 63 empty_index_file)) = Inl e)"
proof -
  have ds: "declared_size empty_index_file = 64"
    by (simp add: declared_size_def empty_index_file_parse zero_header_def)
  then have small: "declared_size empty_index_file < 2 ^ 64" by simp
  have ok: "\<not> (length empty_index_file < 64 \<or>
      magic (parse_header empty_index_file) \<noteq> 0x01444741 \<or>
      version (parse_header empty_index_file) \<noteq> 1 \<or>
      length empty_index_file < declared_size empty_index_file)"
    by (simp add: ds empty_index_file_parse AGD_MAGIC_def AGD_VERSION_def)
  have len: "length empty_index_file = declared_size empty_index_file"
    by (simp add: ds empty_index_file_parse)
  have k: "63 < length empty_index_file" by (simp add: empty_index_file_parse)
  from open_validation [OF small, of "''x.agd''" "healthy empty_index_file"] ok len k small
  show ?thesis by blast
qed

text \<open>
  The claim as stated fails in two ways. A header-only file that declares \<open>2 ^ 61\<close>
  buckets is far shorter than the size it declares, yet opens: the bucket section's size
  wraps around to 0. And the failure on a file that is too short and the failure to open
  a file are the same exception, a \<^verbatim>\<open>std::runtime_error\<close>, told apart by the text of the
  message only.
\<close>

theorem open_validation_counterexample:
  "open_reader ''x.agd'' (healthy wrapped_file) =
     Inr \<lparr>data = Some wrapped_file, file_size = 64, buckets_off = 64, records_off = 64,
          chain_off = 64\<rparr> \<and>
   length wrapped_file = 64 \<and>
   declared_size wrapped_file = 64 + 2 ^ 64 \<and>
   open_reader ''x.agd'' (healthy []) =
     Inl (runtime_error ''Damage index too small: x.agd'') \<and>
   open_reader ''x.agd'' \<lparr>open_ok = False, fstat_ok = True, mmap_ok = True, contents = []\<rparr> =
     Inl (runtime_error ''Failed to open damage index: x.agd'')"
proof -
  let ?h = "zero_header\<lparr>magic := AGD_MAGIC, version := AGD_VERSION, num_buckets := 2 ^ 61\<rparr>"
  have res: "length (reserved ?h) = 27" by (simp add: zero_header_def)
  have parse: "parse_header wrapped_file = ?h"
    using parse_header_bytes [OF res, of "[]"] by (simp add: wrapped_file_def)
  have len: "length wrapped_file = 64"
    using res by (simp add: wrapped_file_def length_header_bytes)
  have "open_reader ''x.agd'' (healthy wrapped_file) =
     Inr \<lparr>data = Some wrapped_file, file_size = 64, buckets_off = 64, records_off = 64,
          chain_off = 64\<rparr>"
    by (simp add: open_reader_healthy parse len zero_header_def)
  moreover have "declared_size wrapped_file = 64 + 2 ^ 64"
    by (simp add: declared_size_def parse zero_header_def)
  moreover have "open_reader ''x.agd'' (healthy []) =
      Inl (runtime_error ''Damage index too small: x.agd'')"
    by (simp add: open_reader_healthy)
  moreover have "open_reader ''x.agd''
      \<lparr>open_ok = False, fstat_ok = True, mmap_ok = True, contents = []\<rparr> =
      Inl (runtime_error ''Failed to open damage index: x.agd'')"
    by (simp add: open_reader_def)
  ultimately show ?thesis using len by simp
qed

subsection \<open>The empty index\<close>

text \<open>
  Claim C9. Finalising a writer to which no record was added writes exactly the 64-byte
  header, with \<open>num_records = 0\<close> and \<open>num_buckets = 0\<close>; the reader opens that file,
  reports a record count of 0, and \<open>find\<close> returns the null pointer for every
  identifier.
\<close>

theorem empty_dataset_round_trip:
  "\<exists>w' bytes rd.
     finalize Stream_ok (new_writer p profile) = (w', Inr (Some bytes)) \<and>
     bytes = header_bytes (header w') \<and> length bytes = 64 \<and>
     num_records (header w') = 0 \<and> num_buckets (header w') = 0 \<and>
     parse_header bytes = header w' \<and>
     open_reader q (healthy bytes) = Inr rd \<and>
     record_count rd = 0 \<and> (\<forall>rid. find_record rd rid = Some None)"
proof -
  define h where "h = (header (new_writer p profile))\<lparr>num_records := 0, num_buckets := 0\<rparr>"
  define w' where "w' = (new_writer p profile)\<lparr>finalized := True, header := h\<rparr>"
  define bytes where "bytes = header_bytes h"
  define rd where "rd = \<lparr>data = Some bytes, file_size = 64, buckets_off = 64,
     records_off = 64, chain_off = 64\<rparr>"
  have res: "length (reserved h) = 27" by (simp add: h_def)
  have fin: "finalize Stream_ok (new_writer p profile) = (w', Inr (Some bytes))"
    by (simp add: finalize_def Let_def w'_def bytes_def h_def new_writer_def)
  have hw: "header w' = h" by (simp add: w'_def)
  have len: "length bytes = 64" using res by (simp add: bytes_def length_header_bytes)
  have parse: "parse_header bytes = h"
    using parse_header_bytes [OF res, of "[]"] by (simp add: bytes_def)
  have hm: "magic h = AGD_MAGIC" "version h = AGD_VERSION" "num_records h = 0" "num_buckets h = 0"
    by (simp_all add: h_def new_writer_def)
  have opn: "open_reader q (healthy bytes) = Inr rd"
    by (simp add: open_reader_healthy parse hm len rd_def)
  have rh: "reader_header rd = h" by (simp add: reader_header_def rd_def parse)
  have cnt: "record_count rd = 0" by (simp add: record_count_def rh hm)
  have fnd: "\<forall>rid. find_record rd rid = Some None"
    by (simp add: find_record_def rh hm)
  show ?thesis using fin hw len parse opn cnt fnd hm bytes_def by blast
qed

subsection \<open>The detector\<close>

lemma sites_scan_5prime_nt:
  "sites (scan_5prime_nt below i codon result nt_pos) =
     sites result @ new_sites_5prime below i codon nt_pos"
  by (simp add: scan_5prime_nt_def new_sites_5prime_def Let_def)

lemma sites_scan_3prime_nt:
  "sites (scan_3prime_nt below i codon result nt_pos) =
     sites result @ new_sites_3prime below i codon nt_pos"
  by (simp add: scan_3prime_nt_def new_sites_3prime_def Let_def)

lemma sites_scan_5prime_codon:
  "sites (scan_5prime_codon below rec result i) =
     sites result @
       (if 63 < codons_5prime rec ! i then []
        else concat (map (new_sites_5prime below i (codons_5prime rec ! i)) [0, 1, 2]))"
  by (simp add: scan_5prime_codon_def Let_def sites_scan_5prime_nt)

lemma sites_scan_3prime_codon:
  "sites (scan_3prime_codon below rec result i) =
     sites result @
       (if 63 < codons_3prime rec ! i then []
        else concat (map (new_sites_3prime below i (codons_3prime rec ! i)) [0, 1, 2]))"
  by (simp add: scan_3prime_codon_def Let_def sites_scan_3prime_nt)

lemma sites_foldl_5prime:
  "sites (foldl (scan_5prime_codon below rec) result is) =
     sites result @ concat (map (\<lambda>i.
       if 63 < codons_5prime rec ! i then []
       else concat (map (new_sites_5prime below i (codons_5prime rec ! i)) [0, 1, 2])) is)"
  by (induction "is" arbitrary: result) (simp_all add: sites_scan_5prime_codon)

lemma sites_foldl_3prime:
  "sites (foldl (scan_3prime_codon below rec) result is) =
     sites result @ concat (map (\<lambda>i.
       if 63 < codons_3prime rec ! i then []
       else concat (map (new_sites_3prime below i (codons_3prime rec ! i)) [0, 1, 2])) is)"
  by (induction "is" arbitrary: result) (simp_all add: sites_scan_3prime_codon)

lemma sites_detect:
  assumes "detect_synonymous_damage rec below = Some res"
  shows "sites res =
     concat (map (\<lambda>i.
       if 63 < codons_5prime rec ! i then []
       else concat (map (new_sites_5prime below i (codons_5prime rec ! i)) [0, 1, 2]))
       [0 ..< unat (n_5prime rec)]) @
     concat (map (\<lambda>i.
       if 63 < codons_3prime rec ! i then []
       else concat (map (new_sites_3prime below i (codons_3prime rec ! i)) [0, 1, 2]))
       [0 ..< unat (n_3prime rec)])"
  using assms
  by (auto simp add: detect_synonymous_damage_def sites_foldl_5prime sites_foldl_3prime
      empty_result_def split: if_splits)

lemma ct_TTT: "is_ct_synonymous 0 2" "\<not> is_ct_synonymous 0 0" "\<not> is_ct_synonymous 0 1"
  by (simp_all add: is_ct_synonymous_def CODON_TO_AA_def)

lemma ct_TAT: "is_ct_synonymous 8 2" "\<not> is_ct_synonymous 8 0"
  by (simp_all add: is_ct_synonymous_def CODON_TO_AA_def Let_def)

lemma enc:
  "encode_codon ''TTT'' = 0" "encode_codon ''TTC'' = 1"
  "encode_codon ''TAT'' = 8" "encode_codon ''TAC'' = 9"
  by (simp_all add: encode_codon_def encode_nucleotide_def)

lemma detect_example:
  "detect_synonymous_damage example_codon_record example_below =
     Some \<lparr>has_synonymous_damage = True, synonymous_5prime = 2, synonymous_3prime = 0,
       nonsynonymous_5prime = 3, nonsynonymous_3prime = 0,
       sites =
        [\<lparr>codon_idx = 0, nt_position = 0, observed_nt = CHR ''T'', expected_nt = CHR ''C'',
           is_synonymous = False\<rparr>,
         \<lparr>codon_idx = 0, nt_position = 1, observed_nt = CHR ''T'', expected_nt = CHR ''C'',
           is_synonymous = False\<rparr>,
         \<lparr>codon_idx = 0, nt_position = 2, observed_nt = CHR ''T'', expected_nt = CHR ''C'',
           is_synonymous = True\<rparr>,
         \<lparr>codon_idx = 1, nt_position = 0, observed_nt = CHR ''T'', expected_nt = CHR ''C'',
           is_synonymous = False\<rparr>,
         \<lparr>codon_idx = 1, nt_position = 2, observed_nt = CHR ''T'', expected_nt = CHR ''C'',
           is_synonymous = True\<rparr>]\<rparr>"
proof -
  have upt: "[0 ..< (2::nat)] = [0, 1]" by (simp add: eval_nat_numeral)
  show ?thesis
    by (simp add: detect_synonymous_damage_def example_codon_record_def zero_record_def
      example_below_def enc scan_5prime_codon_def scan_5prime_nt_def empty_result_def
      Let_def upt is_ct_synonymous_def CODON_TO_AA_def)
qed

text \<open>
  Claim C4, as amended. For a record the detector accepts, and a 5' slot \<open>i\<close> below
  \<open>n_5prime\<close>: if the slot holds TTT or TAT and the position of its third base passes
  the probability threshold, that base is recorded as a synonymous T-from-C site (TTT and
  TTC are both Phe, TAT and TAC both Tyr). If the slot holds TTT and the position of its
  first base passes the threshold, that base is recorded too, as a T-from-C site that is
  not synonymous. Every recorded site with observed base T lies in a 5' slot below the
  count, at a position that passes the threshold, where the stored codon has a T.
\<close>

theorem detector_worked_example:
  assumes det: "detect_synonymous_damage rec below = Some res"
    and i: "i < unat (n_5prime rec)"
  shows "(codons_5prime rec ! i = encode_codon ''TTT'' \<and> \<not> below (i * 3 + 2) \<longrightarrow>
            \<lparr>codon_idx = i, nt_position = 2, observed_nt = CHR ''T'', expected_nt = CHR ''C'',
             is_synonymous = True\<rparr> \<in> set (sites res)) \<and>
         (codons_5prime rec ! i = encode_codon ''TAT'' \<and> \<not> below (i * 3 + 2) \<longrightarrow>
            \<lparr>codon_idx = i, nt_position = 2, observed_nt = CHR ''T'', expected_nt = CHR ''C'',
             is_synonymous = True\<rparr> \<in> set (sites res)) \<and>
         (codons_5prime rec ! i = encode_codon ''TTT'' \<and> \<not> below (i * 3) \<longrightarrow>
            \<lparr>codon_idx = i, nt_position = 0, observed_nt = CHR ''T'', expected_nt = CHR ''C'',
             is_synonymous = False\<rparr> \<in> set (sites res)) \<and>
         (\<forall>s \<in> set (sites res). observed_nt s = CHR ''T'' \<longrightarrow>
            codon_idx s < unat (n_5prime rec) \<and> nt_position s < 3 \<and>
            codons_5prime rec ! codon_idx s \<le> 63 \<and>
            drop_bit (4 - 2 * nt_position s) (unat (codons_5prime rec ! codon_idx s)) AND 3 = 0 \<and>
            \<not> below (codon_idx s * 3 + nt_position s) \<and> expected_nt s = CHR ''C'') \<and>
         CODON_TO_AA ! unat (encode_codon ''TTT'') = CHR ''F'' \<and>
         CODON_TO_AA ! unat (encode_codon ''TTC'') = CHR ''F'' \<and>
         CODON_TO_AA ! unat (encode_codon ''TAT'') = CHR ''Y'' \<and>
         CODON_TO_AA ! unat (encode_codon ''TAC'') = CHR ''Y''"
proof -
  note sd = sites_detect [OF det]
  have mem: "\<And>c (k::nat). codons_5prime rec ! i = c \<Longrightarrow> \<not> 63 < c \<Longrightarrow> k < 3 \<Longrightarrow>
      set (new_sites_5prime below i c k) \<subseteq> set (sites res)"
  proof -
    fix c and k :: nat
    assume c: "codons_5prime rec ! i = c" "\<not> 63 < c" and k: "k < 3"
    from k have "k \<in> set [0, 1, 2::nat]" by auto
    with i c show "set (new_sites_5prime below i c k) \<subseteq> set (sites res)"
      unfolding sd by (fastforce simp del: upt_Suc)
  qed
  have p1: "codons_5prime rec ! i = encode_codon ''TTT'' \<and> \<not> below (i * 3 + 2) \<longrightarrow>
            \<lparr>codon_idx = i, nt_position = 2, observed_nt = CHR ''T'', expected_nt = CHR ''C'',
             is_synonymous = True\<rparr> \<in> set (sites res)"
    using mem [of 0 2] by (auto simp add: enc new_sites_5prime_def ct_TTT)
  have p2: "codons_5prime rec ! i = encode_codon ''TAT'' \<and> \<not> below (i * 3 + 2) \<longrightarrow>
            \<lparr>codon_idx = i, nt_position = 2, observed_nt = CHR ''T'', expected_nt = CHR ''C'',
             is_synonymous = True\<rparr> \<in> set (sites res)"
    using mem [of 8 2] by (auto simp add: enc new_sites_5prime_def ct_TAT)
  have p3: "codons_5prime rec ! i = encode_codon ''TTT'' \<and> \<not> below (i * 3) \<longrightarrow>
            \<lparr>codon_idx = i, nt_position = 0, observed_nt = CHR ''T'', expected_nt = CHR ''C'',
             is_synonymous = False\<rparr> \<in> set (sites res)"
    using mem [of 0 0] by (auto simp add: enc new_sites_5prime_def ct_TTT)
  have p4: "\<forall>s \<in> set (sites res). observed_nt s = CHR ''T'' \<longrightarrow>
            codon_idx s < unat (n_5prime rec) \<and> nt_position s < 3 \<and>
            codons_5prime rec ! codon_idx s \<le> 63 \<and>
            drop_bit (4 - 2 * nt_position s) (unat (codons_5prime rec ! codon_idx s)) AND 3 = 0 \<and>
            \<not> below (codon_idx s * 3 + nt_position s) \<and> expected_nt s = CHR ''C''"
    unfolding sd
    by (auto simp add: new_sites_5prime_def new_sites_3prime_def split: if_splits simp del: upt_Suc)
  have p5: "CODON_TO_AA ! unat (encode_codon ''TTT'') = CHR ''F''"
    "CODON_TO_AA ! unat (encode_codon ''TTC'') = CHR ''F''"
    "CODON_TO_AA ! unat (encode_codon ''TAT'') = CHR ''Y''"
    "CODON_TO_AA ! unat (encode_codon ''TAC'') = CHR ''Y''"
    by (simp_all add: enc CODON_TO_AA_def)
  show ?thesis using p1 p2 p3 p4 p5 by blast
qed

theorem detector_worked_example_witness:
  "detect_synonymous_damage example_codon_record example_below \<noteq> None \<and>
   0 < unat (n_5prime example_codon_record) \<and>
   codons_5prime example_codon_record ! 0 = encode_codon ''TTT'' \<and>
   \<not> example_below (0 * 3 + 2) \<and>
   \<lparr>codon_idx = 0, nt_position = 2, observed_nt = CHR ''T'', expected_nt = CHR ''C'',
     is_synonymous = True\<rparr>
     \<in> set (sites (the (detect_synonymous_damage example_codon_record example_below)))"
proof -
  have i: "0 < unat (n_5prime example_codon_record)"
    by (simp add: example_codon_record_def)
  have c: "codons_5prime example_codon_record ! 0 = encode_codon ''TTT''"
    by (simp add: example_codon_record_def)
  have b: "\<not> example_below (0 * 3 + 2)" by (simp add: example_below_def)
  from detector_worked_example [OF detect_example i] c b i
  show ?thesis by (simp add: detect_example)
qed

text \<open>
  The claim as stated fails: with TTT in slot 0 and all three of its positions passing
  the threshold, the first base of TTT is recorded as a T-from-C site (not synonymous:
  CTT is Leu), next to the second and the third.
\<close>

theorem detector_worked_example_counterexample:
  "codons_5prime example_codon_record ! 0 = encode_codon ''TTT'' \<and>
   \<not> example_below 0 \<and> \<not> example_below 1 \<and> \<not> example_below 2 \<and>
   \<lparr>codon_idx = 0, nt_position = 0, observed_nt = CHR ''T'', expected_nt = CHR ''C'',
     is_synonymous = False\<rparr>
     \<in> set (sites (the (detect_synonymous_damage example_codon_record example_below)))"
  by (simp add: detect_example) (simp add: example_codon_record_def example_below_def)

theorem empty_dataset_round_trip_witness:
  "\<exists>w' bytes rd.
     finalize Stream_ok example_writer = (w', Inr (Some bytes)) \<and> length bytes = 64 \<and>
     open_reader ''out.agd'' (healthy bytes) = Inr rd \<and> record_count rd = 0 \<and>
     find_record rd ''read42_+_1'' = Some None"
  using empty_dataset_round_trip [of "''out.agd''" example_profile "''out.agd''"]
  unfolding example_writer_def by blast

subsection \<open>The codon loops\<close>

lemma div3_step: "pos + 3 \<le> len \<Longrightarrow> (len - pos) div 3 = Suc ((len - (pos + 3)) div 3)"
  by arith

lemma div3_none: "\<not> pos + 3 \<le> len \<Longrightarrow> (len - pos) div 3 = (0::nat)"
  by arith

lemma walk_forward_step:
  "i < 5 \<Longrightarrow> pos + 3 \<le> len \<Longrightarrow>
   walk_forward enc len i pos (cs, n) =
     walk_forward enc len (i + 1) (pos + 3) (cs[i := enc pos], of_nat (i + 1))"
  by (subst walk_forward.simps) simp

lemma walk_forward_stop:
  "\<not> (i < 5 \<and> pos + 3 \<le> len) \<Longrightarrow> walk_forward enc len i pos (cs, n) = (cs, n)"
  by (subst walk_forward.simps) auto

lemma walk_forward_length:
  "length (fst (walk_forward enc len i pos (cs, n))) = length cs"
proof (induction enc len i pos "(cs, n)" arbitrary: cs n rule: walk_forward.induct)
  case (1 enc len i pos cs n)
  then show ?case by (subst walk_forward.simps) simp
qed

lemma walk_forward_count:
  "snd (walk_forward enc len i pos (cs, n)) =
     (if i < 5 \<and> pos + 3 \<le> len then of_nat (i + min (5 - i) ((len - pos) div 3)) else n)"
proof (induction enc len i pos "(cs, n)" arbitrary: cs n rule: walk_forward.induct)
  case (1 enc len i pos cs n)
  show ?case
  proof (cases "i < 5 \<and> pos + 3 \<le> len")
    case True
    let ?c = "i + 1 < 5 \<and> pos + 3 + 3 \<le> len"
    let ?X = "i + 1 + min (5 - (i + 1)) ((len - (pos + 3)) div 3)"
    have eq: "(if ?c then ?X else i + 1) = i + min (5 - i) ((len - pos) div 3)"
      using True div3_step [of pos len] div3_none [of "pos + 3" len]
      by (auto simp add: min_def; linarith)
    have "snd (walk_forward enc len i pos (cs, n)) =
        snd (walk_forward enc len (i + 1) (pos + 3) (cs[i := enc pos], of_nat (i + 1)))"
      using True by (simp only: walk_forward_step)
    also have "\<dots> = (if ?c then of_nat ?X else of_nat (i + 1))"
      by (rule 1 [OF True])
    also have "\<dots> = of_nat (if ?c then ?X else i + 1)"
      by (simp only: if_distrib [of of_nat])
    also have "\<dots> = of_nat (i + min (5 - i) ((len - pos) div 3))"
      by (simp only: eq)
    finally show ?thesis using True by simp
  next
    case False
    then show ?thesis by (auto simp add: walk_forward_stop)
  qed
qed

lemma walk_forward_nth:
  assumes "j < length cs"
  shows "fst (walk_forward enc len i pos (cs, n)) ! j =
     (if i \<le> j \<and> j < i + min (5 - i) ((len - pos) div 3) then enc (pos + 3 * (j - i))
      else cs ! j)"
  using assms
proof (induction enc len i pos "(cs, n)" arbitrary: cs n rule: walk_forward.induct)
  case (1 enc len i pos cs n)
  show ?case
  proof (cases "i < 5 \<and> pos + 3 \<le> len")
    case True
    let ?m' = "min (5 - (i + 1)) ((len - (pos + 3)) div 3)"
    have m: "min (5 - i) ((len - pos) div 3) = Suc ?m'"
      using True div3_step [of pos len] by (auto simp add: min_def; linarith)
    have len': "j < length (cs[i := enc pos])" using 1(2) by simp
    have IH: "fst (walk_forward enc len (i + 1) (pos + 3) (cs[i := enc pos], of_nat (i + 1))) ! j =
       (if i + 1 \<le> j \<and> j < i + 1 + ?m' then enc (pos + 3 + 3 * (j - (i + 1)))
        else cs[i := enc pos] ! j)"
      by (rule 1(1) [OF True len'])
    have step: "fst (walk_forward enc len i pos (cs, n)) ! j =
        fst (walk_forward enc len (i + 1) (pos + 3) (cs[i := enc pos], of_nat (i + 1))) ! j"
      using True by (simp only: walk_forward_step)
    consider "j < i" | "j = i" | "i < j" by linarith
    then show ?thesis
    proof cases
      case 1
      then show ?thesis unfolding step IH m by simp
    next
      case 2
      then show ?thesis unfolding step IH m using 1(2) by simp
    next
      case 3
      then have "j - i = Suc (j - (i + 1))" by simp
      then have e: "pos + 3 + 3 * (j - (i + 1)) = pos + 3 * (j - i)" by simp
      show ?thesis unfolding step IH m e using 3 by simp
    qed
  next
    case False
    then have "min (5 - i) ((len - pos) div 3) = 0"
      using div3_none [of pos len] by (auto simp add: min_def)
    with False show ?thesis by (auto simp add: walk_forward_stop)
  qed
qed

lemma walk_backward_rev_step:
  "i < 5 \<Longrightarrow> pos + 3 \<le> len \<Longrightarrow> \<not> pos < 3 \<Longrightarrow>
   walk_backward_rev enc len i pos (cs, n) =
     walk_backward_rev enc len (i + 1) (pos - 3) (cs[i := enc pos], of_nat (i + 1))"
  by (subst walk_backward_rev.simps) simp

lemma walk_backward_rev_last:
  "i < 5 \<Longrightarrow> pos + 3 \<le> len \<Longrightarrow> pos < 3 \<Longrightarrow>
   walk_backward_rev enc len i pos (cs, n) = (cs[i := enc pos], of_nat (i + 1))"
  by (subst walk_backward_rev.simps) simp

lemma walk_backward_rev_stop:
  "\<not> (i < 5 \<and> pos + 3 \<le> len) \<Longrightarrow> walk_backward_rev enc len i pos (cs, n) = (cs, n)"
  by (subst walk_backward_rev.simps) auto

lemma walk_backward_rev_length:
  "length (fst (walk_backward_rev enc len i pos (cs, n))) = length cs"
proof (induction enc len i pos "(cs, n)" arbitrary: cs n rule: walk_backward_rev.induct)
  case (1 enc len i pos cs n)
  then show ?case by (subst walk_backward_rev.simps) simp
qed

lemma walk_backward_rev_count:
  assumes "pos + 3 \<le> len"
  shows "snd (walk_backward_rev enc len i pos (cs, n)) =
     (if i < 5 then of_nat (i + min (5 - i) (pos div 3 + 1)) else n)"
  using assms
proof (induction enc len i pos "(cs, n)" arbitrary: cs n rule: walk_backward_rev.induct)
  case (1 enc len i pos cs n)
  note fits = \<open>pos + 3 \<le> len\<close>
  show ?case
  proof (cases "i < 5")
    case False
    then show ?thesis by (simp add: walk_backward_rev_stop)
  next
    case True
    show ?thesis
    proof (cases "pos < 3")
      case small: True
      then have "min (5 - i) (pos div 3 + 1) = 1" using True by (auto simp add: min_def)
      then show ?thesis using True fits small by (simp add: walk_backward_rev_last)
    next
      case big: False
      let ?X = "i + 1 + min (5 - (i + 1)) ((pos - 3) div 3 + 1)"
      have fits': "pos - 3 + 3 \<le> len" using fits big by simp
      have eq: "(if i + 1 < 5 then ?X else i + 1) = i + min (5 - i) (pos div 3 + 1)"
        using True big by (auto simp add: min_def; arith)
      have "snd (walk_backward_rev enc len i pos (cs, n)) =
          snd (walk_backward_rev enc len (i + 1) (pos - 3) (cs[i := enc pos], of_nat (i + 1)))"
        by (simp only: walk_backward_rev_step [OF True fits big])
      also have "\<dots> = (if i + 1 < 5 then of_nat ?X else of_nat (i + 1))"
        using 1(1) [OF _ big fits'] True fits by blast
      also have "\<dots> = of_nat (if i + 1 < 5 then ?X else i + 1)"
        by (simp only: if_distrib [of of_nat])
      also have "\<dots> = of_nat (i + min (5 - i) (pos div 3 + 1))"
        by (simp only: eq)
      finally show ?thesis using True by simp
    qed
  qed
qed

lemma walk_backward_rev_nth:
  assumes "pos + 3 \<le> len" "j < length cs"
  shows "fst (walk_backward_rev enc len i pos (cs, n)) ! j =
     (if i \<le> j \<and> j < i + min (5 - i) (pos div 3 + 1) then enc (pos - 3 * (j - i))
      else cs ! j)"
  using assms
proof (induction enc len i pos "(cs, n)" arbitrary: cs n rule: walk_backward_rev.induct)
  case (1 enc len i pos cs n)
  note fits = \<open>pos + 3 \<le> len\<close> and j = \<open>j < length cs\<close>
  show ?case
  proof (cases "i < 5")
    case False
    then show ?thesis by (auto simp add: walk_backward_rev_stop)
  next
    case True
    show ?thesis
    proof (cases "pos < 3")
      case small: True
      then have "min (5 - i) (pos div 3 + 1) = 1" using True by (auto simp add: min_def)
      then show ?thesis using True fits small j
        by (auto simp add: walk_backward_rev_last nth_list_update)
    next
      case big: False
      let ?m' = "min (5 - (i + 1)) ((pos - 3) div 3 + 1)"
      have m: "min (5 - i) (pos div 3 + 1) = Suc ?m'"
        using True big by (auto simp add: min_def; arith)
      have fits': "pos - 3 + 3 \<le> len" using fits big by simp
      have len': "j < length (cs[i := enc pos])" using j by simp
      have IH: "fst (walk_backward_rev enc len (i + 1) (pos - 3)
                  (cs[i := enc pos], of_nat (i + 1))) ! j =
         (if i + 1 \<le> j \<and> j < i + 1 + ?m' then enc (pos - 3 - 3 * (j - (i + 1)))
          else cs[i := enc pos] ! j)"
        using 1(1) [OF _ big fits' len'] True fits by blast
      have step: "fst (walk_backward_rev enc len i pos (cs, n)) ! j =
          fst (walk_backward_rev enc len (i + 1) (pos - 3) (cs[i := enc pos], of_nat (i + 1))) ! j"
        by (simp only: walk_backward_rev_step [OF True fits big])
      consider "j < i" | "j = i" | "i < j" by linarith
      then show ?thesis
      proof cases
        case 1
        then show ?thesis unfolding step IH m by simp
      next
        case 2
        then show ?thesis unfolding step IH m using j by simp
      next
        case 3
        then have "j - i = Suc (j - (i + 1))" by simp
        then have e: "pos - 3 - 3 * (j - (i + 1)) = pos - 3 * (j - i)" by simp
        show ?thesis unfolding step IH m e using 3 by simp
      qed
    qed
  qed
qed

lemma walk_backward_fwd_step:
  "i < 5 \<Longrightarrow> frame \<le> pos \<Longrightarrow> \<not> pos < 3 \<Longrightarrow>
   walk_backward_fwd enc frame i pos (cs, n) =
     walk_backward_fwd enc frame (i + 1) (pos - 3) (cs[i := enc pos], of_nat (i + 1))"
  by (subst walk_backward_fwd.simps) simp

lemma walk_backward_fwd_last:
  "i < 5 \<Longrightarrow> frame \<le> pos \<Longrightarrow> pos < 3 \<Longrightarrow>
   walk_backward_fwd enc frame i pos (cs, n) = (cs[i := enc pos], of_nat (i + 1))"
  by (subst walk_backward_fwd.simps) simp

lemma walk_backward_fwd_stop:
  "\<not> (i < 5 \<and> frame \<le> pos) \<Longrightarrow> walk_backward_fwd enc frame i pos (cs, n) = (cs, n)"
  by (subst walk_backward_fwd.simps) auto

lemma walk_backward_fwd_length:
  "length (fst (walk_backward_fwd enc frame i pos (cs, n))) = length cs"
proof (induction enc frame i pos "(cs, n)" arbitrary: cs n rule: walk_backward_fwd.induct)
  case (1 enc frame i pos cs n)
  then show ?case by (subst walk_backward_fwd.simps) simp
qed

text \<open>Codon starts of the frame: \<open>pos = frame + 3 * q\<close> with \<open>frame \<le> 2\<close>.\<close>

lemma walk_backward_fwd_count:
  assumes "frame \<le> 2"
  shows "snd (walk_backward_fwd enc frame i (frame + 3 * q) (cs, n)) =
     (if i < 5 then of_nat (i + min (5 - i) (q + 1)) else n)"
  using assms
proof (induction q arbitrary: i cs n)
  case 0
  show ?case
  proof (cases "i < 5")
    case True
    then have "min (5 - i) (0 + 1) = 1" by (auto simp add: min_def)
    then show ?thesis using True 0 by (simp add: walk_backward_fwd_last)
  next
    case False
    then show ?thesis by (simp add: walk_backward_fwd_stop)
  qed
next
  case (Suc q)
  show ?case
  proof (cases "i < 5")
    case True
    have ge: "frame \<le> frame + 3 * Suc q" and big: "\<not> frame + 3 * Suc q < 3" by simp_all
    have p: "frame + 3 * Suc q - 3 = frame + 3 * q" by simp
    let ?X = "i + 1 + min (5 - (i + 1)) (q + 1)"
    have eq: "(if i + 1 < 5 then ?X else i + 1) = i + min (5 - i) (Suc q + 1)"
      using True by (auto simp add: min_def)
    have "snd (walk_backward_fwd enc frame i (frame + 3 * Suc q) (cs, n)) =
        snd (walk_backward_fwd enc frame (i + 1) (frame + 3 * q) (cs[i := enc (frame + 3 * Suc q)], of_nat (i + 1)))"
      by (simp only: walk_backward_fwd_step [OF True ge big] p)
    also have "\<dots> = (if i + 1 < 5 then of_nat ?X else of_nat (i + 1))"
      by (rule Suc.IH [OF Suc.prems])
    also have "\<dots> = of_nat (if i + 1 < 5 then ?X else i + 1)"
      by (simp only: if_distrib [of of_nat])
    also have "\<dots> = of_nat (i + min (5 - i) (Suc q + 1))"
      by (simp only: eq)
    finally show ?thesis using True by simp
  next
    case False
    then show ?thesis by (simp add: walk_backward_fwd_stop)
  qed
qed


lemma walk_backward_fwd_nth:
  assumes "frame \<le> 2" "j < length cs"
  shows "fst (walk_backward_fwd enc frame i (frame + 3 * q) (cs, n)) ! j =
     (if i \<le> j \<and> j < i + min (5 - i) (q + 1) then enc (frame + 3 * q - 3 * (j - i))
      else cs ! j)"
  using assms
proof (induction q arbitrary: i cs n)
  case 0
  show ?case
  proof (cases "i < 5")
    case True
    then have "min (5 - i) (0 + 1) = 1" by (auto simp add: min_def)
    then show ?thesis using True 0 by (auto simp add: walk_backward_fwd_last nth_list_update)
  next
    case False
    then show ?thesis by (auto simp add: walk_backward_fwd_stop)
  qed
next
  case (Suc q)
  note j = \<open>j < length cs\<close>
  show ?case
  proof (cases "i < 5")
    case True
    have ge: "frame \<le> frame + 3 * Suc q" and big: "\<not> frame + 3 * Suc q < 3" by simp_all
    have p: "frame + 3 * Suc q - 3 = frame + 3 * q" by simp
    let ?cs' = "cs[i := enc (frame + 3 * Suc q)]"
    have m: "min (5 - i) (Suc q + 1) = Suc (min (5 - (i + 1)) (q + 1))"
      using True by (auto simp add: min_def)
    have len': "j < length ?cs'" using j by simp
    have IH: "fst (walk_backward_fwd enc frame (i + 1) (frame + 3 * q) (?cs', of_nat (i + 1))) ! j =
       (if i + 1 \<le> j \<and> j < i + 1 + min (5 - (i + 1)) (q + 1)
        then enc (frame + 3 * q - 3 * (j - (i + 1))) else ?cs' ! j)"
      by (rule Suc.IH [OF Suc.prems(1) len'])
    have step: "fst (walk_backward_fwd enc frame i (frame + 3 * Suc q) (cs, n)) ! j =
        fst (walk_backward_fwd enc frame (i + 1) (frame + 3 * q) (?cs', of_nat (i + 1))) ! j"
      by (simp only: walk_backward_fwd_step [OF True ge big] p)
    consider "j < i" | "j = i" | "i < j" by linarith
    then show ?thesis
    proof cases
      case 1
      then show ?thesis unfolding step IH m by simp
    next
      case 2
      then show ?thesis unfolding step IH m using j by simp
    next
      case 3
      then have "j - i = Suc (j - (i + 1))" by simp
      then have e: "frame + 3 * q - 3 * (j - (i + 1)) = frame + 3 * Suc q - 3 * (j - i)" by simp
      show ?thesis unfolding step IH m e using 3 by simp
    qed
  next
    case False
    then show ?thesis by (auto simp add: walk_backward_fwd_stop)
  qed
qed

subsection \<open>Terminal codons of a record\<close>

lemma encode_nucleotide_range: "encode_nucleotide c \<in> {- 1, 0, 1, 2, 3}"
  by (simp add: encode_nucleotide_def)

lemma pack_codon_range:
  assumes "a \<in> {0, 1, 2, 3::int}" "b \<in> {0, 1, 2, 3::int}" "c \<in> {0, 1, 2, 3::int}"
  shows "(of_int (push_bit 4 a OR push_bit 2 b OR c) :: byte) \<le> 63"
  using assms by auto

lemma encode_codon_cases:
  "encode_codon s = 255 \<and>
     (encode_nucleotide (s ! 0) < 0 \<or> encode_nucleotide (s ! 1) < 0 \<or> encode_nucleotide (s ! 2) < 0)
   \<or> encode_codon s \<le> 63 \<and>
     \<not> (encode_nucleotide (s ! 0) < 0 \<or> encode_nucleotide (s ! 1) < 0 \<or> encode_nucleotide (s ! 2) < 0)"
proof (cases "encode_nucleotide (s ! 0) < 0 \<or> encode_nucleotide (s ! 1) < 0 \<or> encode_nucleotide (s ! 2) < 0")
  case True
  then show ?thesis by (simp add: encode_codon_def Let_def)
next
  case False
  then have "encode_nucleotide (s ! 0) \<in> {0, 1, 2, 3}" "encode_nucleotide (s ! 1) \<in> {0, 1, 2, 3}"
    "encode_nucleotide (s ! 2) \<in> {0, 1, 2, 3}"
    using encode_nucleotide_range [of "s ! 0"] encode_nucleotide_range [of "s ! 1"]
      encode_nucleotide_range [of "s ! 2"] by auto
  then have "(of_int (push_bit 4 (encode_nucleotide (s ! 0)) OR push_bit 2 (encode_nucleotide (s ! 1))
      OR encode_nucleotide (s ! 2)) :: byte) \<le> 63"
    by (rule pack_codon_range)
  then show ?thesis using False by (simp add: encode_codon_def Let_def)
qed

lemma encode_codon_range: "encode_codon s \<le> 63 \<or> encode_codon s = 255"
  using encode_codon_cases [of s] by blast

lemma encode_codon_sentinel:
  "encode_codon s = 255 \<longleftrightarrow>
     encode_nucleotide (s ! 0) < 0 \<or> encode_nucleotide (s ! 1) < 0 \<or> encode_nucleotide (s ! 2) < 0"
proof -
  have "\<not> (255 :: byte) \<le> 63" by simp
  then show ?thesis using encode_codon_cases [of s] by metis
qed

lemma unat_small_byte: "m \<le> 5 \<Longrightarrow> unat (of_nat m :: byte) = m"
  by (simp add: unat_of_nat)

lemma extract_short:
  assumes "length dna < 3"
  shows "extract_terminal_codons dna frame is_reverse rec =
     rec\<lparr>codons_5prime := replicate 5 255, codons_3prime := replicate 5 255,
         n_5prime := 0, n_3prime := 0\<rparr>"
  using assms by (simp add: extract_terminal_codons_def)

lemma extract_fwd_fields:
  assumes "3 \<le> length dna"
  shows "codons_5prime (extract_terminal_codons dna frame False rec) =
           fst (walk_forward (\<lambda>pos. encode_codon (drop pos dna)) (length dna) 0 frame
                 (replicate 5 255, 0))"
    and "n_5prime (extract_terminal_codons dna frame False rec) =
           snd (walk_forward (\<lambda>pos. encode_codon (drop pos dna)) (length dna) 0 frame
                 (replicate 5 255, 0))"
    and "codons_3prime (extract_terminal_codons dna frame False rec) =
           (if 3 \<le> ((length dna - frame) div 3) * 3
            then fst (walk_backward_fwd (\<lambda>pos. encode_codon (drop pos dna)) frame 0
                   (frame + ((length dna - frame) div 3) * 3 - 3) (replicate 5 255, 0))
            else replicate 5 255)"
    and "n_3prime (extract_terminal_codons dna frame False rec) =
           (if 3 \<le> ((length dna - frame) div 3) * 3
            then snd (walk_backward_fwd (\<lambda>pos. encode_codon (drop pos dna)) frame 0
                   (frame + ((length dna - frame) div 3) * 3 - 3) (replicate 5 255, 0))
            else 0)"
  using assms
  by (simp_all add: extract_terminal_codons_def Let_def case_prod_beta)

lemma extract_rev_fields:
  assumes "3 \<le> length dna"
  shows "codons_5prime (extract_terminal_codons dna frame True rec) =
           (if ((length dna - frame) div 3) * 3 < 3 then replicate 5 255
            else fst (walk_backward_rev (\<lambda>pos. encode_codon (revcomp_codon dna pos)) (length dna) 0
                   (length dna - frame - 3) (replicate 5 255, 0)))"
    and "n_5prime (extract_terminal_codons dna frame True rec) =
           (if ((length dna - frame) div 3) * 3 < 3 then 0
            else snd (walk_backward_rev (\<lambda>pos. encode_codon (revcomp_codon dna pos)) (length dna) 0
                   (length dna - frame - 3) (replicate 5 255, 0)))"
    and "codons_3prime (extract_terminal_codons dna frame True rec) =
           (if ((length dna - frame) div 3) * 3 < 3 then replicate 5 255
            else fst (walk_forward (\<lambda>pos. encode_codon (revcomp_codon dna pos)) (length dna) 0 frame
                   (replicate 5 255, 0)))"
    and "n_3prime (extract_terminal_codons dna frame True rec) =
           (if ((length dna - frame) div 3) * 3 < 3 then 0
            else snd (walk_forward (\<lambda>pos. encode_codon (revcomp_codon dna pos)) (length dna) 0 frame
                   (replicate 5 255, 0)))"
  using assms
  by (simp_all add: extract_terminal_codons_def Let_def case_prod_beta)


lemma short_no_codon: "length dna < 3 \<Longrightarrow> (length dna - frame) div 3 = (0::nat)"
  by simp

lemma extract_counts:
  assumes "frame \<le> 2"
  shows "n_5prime (extract_terminal_codons dna frame is_reverse rec) =
           of_nat (min 5 ((length dna - frame) div 3))"
    and "n_3prime (extract_terminal_codons dna frame is_reverse rec) =
           of_nat (min 5 ((length dna - frame) div 3))"
proof -
  let ?len = "length dna" and ?q = "(length dna - frame) div 3"
  show "n_5prime (extract_terminal_codons dna frame is_reverse rec) = of_nat (min 5 ?q)"
  proof (cases "?len < 3")
    case True
    then show ?thesis by (simp add: extract_short)
  next
    case False
    then have len: "3 \<le> ?len" by simp
    show ?thesis
    proof (cases is_reverse)
      case False
      have "\<not> frame + 3 \<le> ?len \<Longrightarrow> ?q = 0" by (rule div3_none)
      then show ?thesis using False
        by (auto simp add: extract_fwd_fields(2) [OF len] walk_forward_count)
    next
      case True
      show ?thesis
      proof (cases "?q * 3 < 3")
        case small: True
        then have "?q = 0" by simp
        then show ?thesis using True small by (simp add: extract_rev_fields(2) [OF len])
      next
        case big: False
        then have fits: "?len - frame - 3 + 3 \<le> ?len" and q: "(?len - frame - 3) div 3 + 1 = ?q"
          by simp_all
        from True have r: "is_reverse = True" by simp
        have "n_5prime (extract_terminal_codons dna frame is_reverse rec) =
            snd (walk_backward_rev (\<lambda>pos. encode_codon (revcomp_codon dna pos)) ?len 0
                   (?len - frame - 3) (replicate 5 255, 0))"
          unfolding r extract_rev_fields(2) [OF len] using big by simp
        also have "\<dots> = (if (0::nat) < 5 then of_nat (0 + min (5 - 0) ((?len - frame - 3) div 3 + 1))
            else 0)"
          by (rule walk_backward_rev_count [OF fits])
        also have "\<dots> = of_nat (min 5 ?q)" unfolding q by simp
        finally show ?thesis .
      qed
    qed
  qed
  show "n_3prime (extract_terminal_codons dna frame is_reverse rec) = of_nat (min 5 ?q)"
  proof (cases "?len < 3")
    case True
    then show ?thesis by (simp add: extract_short)
  next
    case False
    then have len: "3 \<le> ?len" by simp
    show ?thesis
    proof (cases is_reverse)
      case False
      show ?thesis
      proof (cases "3 \<le> ?q * 3")
        case big: True
        then have pos: "frame + ?q * 3 - 3 = frame + 3 * (?q - 1)" and q: "?q - 1 + 1 = ?q"
          by simp_all
        show ?thesis using False big
          by (simp add: extract_fwd_fields(4) [OF len] pos walk_backward_fwd_count [OF assms] q)
      next
        case small: False
        then have "?q = 0" by simp
        then show ?thesis using False small by (simp add: extract_fwd_fields(4) [OF len])
      qed
    next
      case True
      have z: "\<not> frame + 3 \<le> ?len \<Longrightarrow> ?q = 0" by (rule div3_none)
      show ?thesis
      proof (cases "?q * 3 < 3")
        case small: True
        then have "?q = 0" by simp
        then show ?thesis using True small by (simp add: extract_rev_fields(4) [OF len])
      next
        case big: False
        then show ?thesis using True z
          by (auto simp add: extract_rev_fields(4) [OF len] walk_forward_count)
      qed
    qed
  qed
qed


lemma extract_lengths:
  "length (codons_5prime (extract_terminal_codons dna frame is_reverse rec)) = 5"
  "length (codons_3prime (extract_terminal_codons dna frame is_reverse rec)) = 5"
proof -
  show "length (codons_5prime (extract_terminal_codons dna frame is_reverse rec)) = 5"
  proof (cases "length dna < 3")
    case True
    then show ?thesis by (simp add: extract_short)
  next
    case False
    then have len: "3 \<le> length dna" by simp
    show ?thesis
      by (cases is_reverse)
        (simp_all add: extract_fwd_fields(1) [OF len] extract_rev_fields(1) [OF len]
          walk_forward_length walk_backward_rev_length)
  qed
  show "length (codons_3prime (extract_terminal_codons dna frame is_reverse rec)) = 5"
  proof (cases "length dna < 3")
    case True
    then show ?thesis by (simp add: extract_short)
  next
    case False
    then have len: "3 \<le> length dna" by simp
    show ?thesis
      by (cases is_reverse)
        (simp_all add: extract_fwd_fields(3) [OF len] extract_rev_fields(3) [OF len]
          walk_forward_length walk_backward_fwd_length)
  qed
qed

lemma walk_forward_from_start:
  assumes "j < 5"
  shows "fst (walk_forward enc len 0 frame (replicate 5 255, 0)) ! j =
     (if j < min 5 ((len - frame) div 3) then enc (frame + 3 * j) else 255)"
proof -
  have "fst (walk_forward enc len 0 frame (replicate 5 255, 0)) ! j =
     (if 0 \<le> j \<and> j < 0 + min (5 - 0) ((len - frame) div 3) then enc (frame + 3 * (j - 0))
      else replicate 5 255 ! j)"
    by (rule walk_forward_nth) (simp add: assms)
  then show ?thesis using assms by simp
qed

lemma extract_fwd_5_nth:
  assumes "j < 5"
  shows "codons_5prime (extract_terminal_codons dna frame False rec) ! j =
     (if j < min 5 ((length dna - frame) div 3) then encode_codon (drop (frame + 3 * j) dna)
      else 255)"
proof (cases "length dna < 3")
  case True
  then show ?thesis using assms by (simp add: extract_short)
next
  case False
  then have len: "3 \<le> length dna" by simp
  show ?thesis
    unfolding extract_fwd_fields(1) [OF len] by (rule walk_forward_from_start [OF assms])
qed

lemma extract_rev_3_nth:
  assumes "j < 5"
  shows "codons_3prime (extract_terminal_codons dna frame True rec) ! j =
     (if j < min 5 ((length dna - frame) div 3)
      then encode_codon (revcomp_codon dna (frame + 3 * j)) else 255)"
proof (cases "length dna < 3")
  case True
  then show ?thesis using assms by (simp add: extract_short)
next
  case False
  then have len: "3 \<le> length dna" by simp
  show ?thesis
  proof (cases "((length dna - frame) div 3) * 3 < 3")
    case True
    then have "(length dna - frame) div 3 = 0" by simp
    then show ?thesis using True assms by (simp add: extract_rev_fields(3) [OF len])
  next
    case False
    have "codons_3prime (extract_terminal_codons dna frame True rec) ! j =
        fst (walk_forward (\<lambda>pos. encode_codon (revcomp_codon dna pos)) (length dna) 0 frame
                   (replicate 5 255, 0)) ! j"
      unfolding extract_rev_fields(3) [OF len] using False by simp
    then show ?thesis by (simp only: walk_forward_from_start [OF assms])
  qed
qed

lemma extract_fwd_3_nth:
  assumes "frame \<le> 2" "j < 5"
  shows "codons_3prime (extract_terminal_codons dna frame False rec) ! j =
     (if j < min 5 ((length dna - frame) div 3)
      then encode_codon (drop (frame + ((length dna - frame) div 3) * 3 - 3 - 3 * j) dna)
      else 255)"
proof (cases "length dna < 3")
  case True
  then show ?thesis using assms by (simp add: extract_short)
next
  case False
  then have len: "3 \<le> length dna" by simp
  let ?q = "(length dna - frame) div 3"
  let ?enc = "\<lambda>pos. encode_codon (drop pos dna)"
  show ?thesis
  proof (cases "3 \<le> ?q * 3")
    case False
    then have "?q = 0" by simp
    then show ?thesis using False assms by (simp add: extract_fwd_fields(3) [OF len])
  next
    case True
    then have pos: "frame + ?q * 3 - 3 = frame + 3 * (?q - 1)" and q: "?q - 1 + 1 = ?q"
      by simp_all
    have "codons_3prime (extract_terminal_codons dna frame False rec) ! j =
        fst (walk_backward_fwd ?enc frame 0 (frame + 3 * (?q - 1)) (replicate 5 255, 0)) ! j"
      unfolding extract_fwd_fields(3) [OF len] pos using True by simp
    also have "\<dots> = (if 0 \<le> j \<and> j < 0 + min (5 - 0) (?q - 1 + 1)
        then ?enc (frame + 3 * (?q - 1) - 3 * (j - 0)) else replicate 5 255 ! j)"
      by (rule walk_backward_fwd_nth [OF assms(1)]) (simp add: assms(2))
    also have "\<dots> = (if j < min 5 ?q then ?enc (frame + 3 * (?q - 1) - 3 * j) else 255)"
      unfolding q using assms(2) by simp
    finally show ?thesis unfolding pos by simp
  qed
qed

lemma extract_rev_5_nth:
  assumes "j < 5"
  shows "codons_5prime (extract_terminal_codons dna frame True rec) ! j =
     (if j < min 5 ((length dna - frame) div 3)
      then encode_codon (revcomp_codon dna (length dna - frame - 3 - 3 * j))
      else 255)"
proof (cases "length dna < 3")
  case True
  then show ?thesis using assms by (simp add: extract_short)
next
  case False
  then have len: "3 \<le> length dna" by simp
  let ?len = "length dna"
  let ?q = "(length dna - frame) div 3"
  let ?enc = "\<lambda>pos. encode_codon (revcomp_codon dna pos)"
  show ?thesis
  proof (cases "?q * 3 < 3")
    case True
    then have "?q = 0" by simp
    then show ?thesis using True assms by (simp add: extract_rev_fields(1) [OF len])
  next
    case False
    then have fits: "?len - frame - 3 + 3 \<le> ?len" and q: "(?len - frame - 3) div 3 + 1 = ?q"
      by simp_all
    have "codons_5prime (extract_terminal_codons dna frame True rec) ! j =
        fst (walk_backward_rev ?enc ?len 0 (?len - frame - 3) (replicate 5 255, 0)) ! j"
      unfolding extract_rev_fields(1) [OF len] using False by simp
    also have "\<dots> = (if 0 \<le> j \<and> j < 0 + min (5 - 0) ((?len - frame - 3) div 3 + 1)
        then ?enc (?len - frame - 3 - 3 * (j - 0)) else replicate 5 255 ! j)"
      by (rule walk_backward_rev_nth [OF fits]) (simp add: assms)
    also have "\<dots> = (if j < min 5 ?q then ?enc (?len - frame - 3 - 3 * j) else 255)"
      unfolding q using assms by simp
    finally show ?thesis .
  qed
qed


lemma count_below: "length (filter (\<lambda>j. j < q) [0 ..< n]) = min n q"
  by (induction n) auto

lemma codon_present_iff: "codon_present dna frame j \<longleftrightarrow> j < (length dna - frame) div 3"
proof -
  have "j < (length dna - frame) div 3 \<longleftrightarrow> Suc j \<le> (length dna - frame) div 3" by auto
  also have "\<dots> \<longleftrightarrow> Suc j * 3 \<le> length dna - frame"
    by (rule less_eq_div_iff_mult_less_eq) simp
  also have "\<dots> \<longleftrightarrow> frame + 3 * (j + 1) \<le> length dna" by auto
  finally show ?thesis by (simp add: codon_present_def)
qed

lemma count_present:
  "length (filter (codon_present dna frame) [0 ..< 5]) = min 5 ((length dna - frame) div 3)"
  using count_below [of "(length dna - frame) div 3" 5]
  by (simp only: codon_present_iff [abs_def])

lemma codons_pack [simp]:
  "codons_5prime (pack_terminal_nucleotides dna is_reverse rec) = codons_5prime rec"
  "codons_3prime (pack_terminal_nucleotides dna is_reverse rec) = codons_3prime rec"
  "n_5prime (pack_terminal_nucleotides dna is_reverse rec) = n_5prime rec"
  "n_3prime (pack_terminal_nucleotides dna is_reverse rec) = n_3prime rec"
  by (simp_all add: pack_terminal_nucleotides_def Let_def)

lemma make_record_extract:
  "\<exists>rec. make_record gene dna =
     pack_terminal_nucleotides dna (\<not> gene_is_forward gene)
       (extract_terminal_codons dna (gene_frame gene) (\<not> gene_is_forward gene) rec)"
  unfolding make_record_def Let_def by (rule exI) (rule refl)

text \<open>
  Claim C2. On the forward strand, for a frame of 0, 1 or 2: the 5' array holds the codes
  of the codons that start at \<open>frame\<close>, \<open>frame + 3\<close>, ..., at most 5 of them and
  only those that lie within the sequence, and the loop stops before 5 only when fewer
  than 3 bases remain; the 3' array holds the codes of the codons that start at
  \<open>frame + coding_len - 3\<close> and walk backward by 3, at most 5 of them, where
  \<open>coding_len\<close> is the largest multiple of 3 that does not exceed \<open>len - frame\<close>;
  no start position is below \<open>frame\<close>. Unused slots hold 255.
\<close>

theorem forward_terminal_codons:
  assumes "frame \<le> 2"
  shows "unat (n_5prime (extract_terminal_codons dna frame False rec)) =
           min 5 ((length dna - frame) div 3) \<and>
         unat (n_3prime (extract_terminal_codons dna frame False rec)) =
           min 5 ((((length dna - frame) div 3) * 3) div 3) \<and>
         (\<forall>j<5. codons_5prime (extract_terminal_codons dna frame False rec) ! j =
            (if j < min 5 ((length dna - frame) div 3)
             then encode_codon (drop (frame + 3 * j) dna) else 255)) \<and>
         (\<forall>j<5. codons_3prime (extract_terminal_codons dna frame False rec) ! j =
            (if j < min 5 ((((length dna - frame) div 3) * 3) div 3)
             then encode_codon (drop (frame + ((length dna - frame) div 3) * 3 - 3 - 3 * j) dna)
             else 255)) \<and>
         (\<forall>j < min 5 ((length dna - frame) div 3). frame + 3 * j + 3 \<le> length dna) \<and>
         (min 5 ((length dna - frame) div 3) < 5 \<longrightarrow>
            length dna < frame + 3 * min 5 ((length dna - frame) div 3) + 3) \<and>
         (\<forall>j < min 5 ((((length dna - frame) div 3) * 3) div 3).
            frame + 3 * j + 3 \<le> frame + ((length dna - frame) div 3) * 3 \<and>
            frame \<le> frame + ((length dna - frame) div 3) * 3 - 3 - 3 * j \<and>
            frame + ((length dna - frame) div 3) * 3 - 3 - 3 * j + 3 \<le> length dna) \<and>
         3 dvd ((length dna - frame) div 3) * 3 \<and>
         ((length dna - frame) div 3) * 3 \<le> length dna - frame \<and>
         length dna - frame < ((length dna - frame) div 3) * 3 + 3"
proof -
  let ?q = "(length dna - frame) div 3"
  let ?r = "extract_terminal_codons dna frame False rec"
  have q3: "(?q * 3) div 3 = ?q" by simp
  have m5: "min 5 ?q \<le> 5" by simp
  have n5: "unat (n_5prime ?r) = min 5 ?q"
    unfolding extract_counts(1) [OF assms] by (rule unat_small_byte [OF m5])
  have n3: "unat (n_3prime ?r) = min 5 ?q"
    unfolding extract_counts(2) [OF assms] by (rule unat_small_byte [OF m5])
  have c5: "\<forall>j<5. codons_5prime ?r ! j =
      (if j < min 5 ?q then encode_codon (drop (frame + 3 * j) dna) else 255)"
    using extract_fwd_5_nth by blast
  have c3: "\<forall>j<5. codons_3prime ?r ! j =
      (if j < min 5 ?q then encode_codon (drop (frame + ?q * 3 - 3 - 3 * j) dna) else 255)"
    using extract_fwd_3_nth [OF assms] by blast
  have present: "\<And>j. j < ?q \<Longrightarrow> frame + 3 * j + 3 \<le> length dna"
    using codon_present_iff [of dna frame] by (simp add: codon_present_def)
  have a5: "\<forall>j < min 5 ?q. frame + 3 * j + 3 \<le> length dna"
    using present by simp
  have stop: "min 5 ?q < 5 \<longrightarrow> length dna < frame + 3 * min 5 ?q + 3"
  proof
    assume "min 5 ?q < 5"
    then have "min 5 ?q = ?q" by simp
    moreover have "\<not> codon_present dna frame ?q" by (simp add: codon_present_iff)
    ultimately show "length dna < frame + 3 * min 5 ?q + 3"
      by (simp add: codon_present_def)
  qed
  have a3: "\<forall>j < min 5 ?q. frame + 3 * j + 3 \<le> frame + ?q * 3 \<and>
      frame \<le> frame + ?q * 3 - 3 - 3 * j \<and> frame + ?q * 3 - 3 - 3 * j + 3 \<le> length dna"
  proof (intro allI impI)
    fix j assume "j < min 5 ?q"
    then have j: "j < ?q" by simp
    define c where "c = ?q * 3"
    from j have 1: "3 * j + 3 \<le> c" by (simp add: c_def)
    have 2: "frame + c \<le> length dna"
      using present [of "?q - 1"] j by (simp add: c_def)
    from 1 2 have "frame + 3 * j + 3 \<le> frame + c \<and>
      frame \<le> frame + c - 3 - 3 * j \<and> frame + c - 3 - 3 * j + 3 \<le> length dna"
      by linarith
    then show "frame + 3 * j + 3 \<le> frame + ?q * 3 \<and>
      frame \<le> frame + ?q * 3 - 3 - 3 * j \<and> frame + ?q * 3 - 3 - 3 * j + 3 \<le> length dna"
      by (simp only: c_def)
  qed
  have l: "3 dvd ?q * 3" "?q * 3 \<le> length dna - frame" "length dna - frame < ?q * 3 + 3"
    by simp_all
  show ?thesis unfolding q3 using n5 n3 c5 c3 a5 stop a3 l by blast
qed


theorem forward_terminal_codons_witness:
  "(0::nat) \<le> 2 \<and>
   unat (n_5prime (extract_terminal_codons ''ATGCCCTAAG'' 0 False zero_record)) = 3 \<and>
   unat (n_3prime (extract_terminal_codons ''ATGCCCTAAG'' 0 False zero_record)) = 3 \<and>
   codons_5prime (extract_terminal_codons ''ATGCCCTAAG'' 0 False zero_record) ! 1 =
     encode_codon ''CCCTAAG'' \<and>
   codons_3prime (extract_terminal_codons ''ATGCCCTAAG'' 0 False zero_record) ! 0 =
     encode_codon ''TAAG'' \<and>
   codons_3prime (extract_terminal_codons ''ATGCCCTAAG'' 0 False zero_record) ! 3 = 255"
proof -
  have f: "(0::nat) \<le> 2" by simp
  show ?thesis
    using forward_terminal_codons [OF f, of "''ATGCCCTAAG''" zero_record] by simp
qed

text \<open>
  Claim C3. For the record that \<open>add_record\<close> appends (any sequence, either strand,
  frame 0, 1 or 2): both counts are at most 5; each count is the number of occupied slots
  of its array (the codons the read offers at that end, capped at 5); every slot from the
  count on holds the sentinel 255; every slot below the count holds the code of its codon,
  a value up to 63, or 255 exactly when the codon has a base other than A, C, G, T. A
  sentinel among the first \<open>n\<close> slots is therefore counted, and the counts do not
  depend on the bases.
\<close>

theorem codon_count_invariant:
  assumes "gene_frame gene \<le> 2" and "add_record gene dna w = Inr w'"
  shows "last (records w') = make_record gene dna \<and>
         unat (n_5prime (make_record gene dna)) \<le> 5 \<and>
         unat (n_3prime (make_record gene dna)) \<le> 5 \<and>
         length (codons_5prime (make_record gene dna)) = 5 \<and>
         length (codons_3prime (make_record gene dna)) = 5 \<and>
         unat (n_5prime (make_record gene dna)) =
           min 5 ((length dna - gene_frame gene) div 3) \<and>
         unat (n_3prime (make_record gene dna)) =
           min 5 ((length dna - gene_frame gene) div 3) \<and>
         unat (n_5prime (make_record gene dna)) =
           length (filter (codon_present dna (gene_frame gene)) [0 ..< 5]) \<and>
         unat (n_3prime (make_record gene dna)) =
           length (filter (codon_present dna (gene_frame gene)) [0 ..< 5]) \<and>
         (\<forall>j<5. unat (n_5prime (make_record gene dna)) \<le> j \<longrightarrow>
            codons_5prime (make_record gene dna) ! j = 255) \<and>
         (\<forall>j<5. unat (n_3prime (make_record gene dna)) \<le> j \<longrightarrow>
            codons_3prime (make_record gene dna) ! j = 255) \<and>
         (\<forall>j < unat (n_5prime (make_record gene dna)).
            codons_5prime (make_record gene dna) ! j =
              encode_codon
                (if gene_is_forward gene then drop (gene_frame gene + 3 * j) dna
                 else revcomp_codon dna (length dna - gene_frame gene - 3 - 3 * j))) \<and>
         (\<forall>j < unat (n_3prime (make_record gene dna)).
            codons_3prime (make_record gene dna) ! j =
              encode_codon
                (if gene_is_forward gene
                 then drop (gene_frame gene + ((length dna - gene_frame gene) div 3) * 3
                        - 3 - 3 * j) dna
                 else revcomp_codon dna (gene_frame gene + 3 * j))) \<and>
         (\<forall>s. (encode_codon s \<le> 63 \<or> encode_codon s = 255) \<and>
              (encode_codon s = 255 \<longleftrightarrow>
                 encode_nucleotide (s ! 0) < 0 \<or> encode_nucleotide (s ! 1) < 0 \<or>
                 encode_nucleotide (s ! 2) < 0))"
proof -
  let ?f = "gene_frame gene" and ?rv = "\<not> gene_is_forward gene"
  let ?m = "min 5 ((length dna - ?f) div 3)"
  let ?R = "make_record gene dna"
  obtain rec where R: "?R = pack_terminal_nucleotides dna ?rv
      (extract_terminal_codons dna ?f ?rv rec)"
    using make_record_extract by blast
  let ?E = "extract_terminal_codons dna ?f ?rv rec"
  have f5: "codons_5prime ?R = codons_5prime ?E" and f3: "codons_3prime ?R = codons_3prime ?E"
    and g5: "n_5prime ?R = n_5prime ?E" and g3: "n_3prime ?R = n_3prime ?E"
    unfolding R by simp_all
  have m5: "?m \<le> 5" by simp
  from assms(2) have "w' = w\<lparr>records := records w @ [?R]\<rparr>"
    by (simp add: add_record_def split: if_splits)
  then have last: "last (records w') = ?R" by simp
  have n5: "unat (n_5prime ?R) = ?m"
    unfolding g5 extract_counts(1) [OF assms(1)] by (rule unat_small_byte [OF m5])
  have n3: "unat (n_3prime ?R) = ?m"
    unfolding g3 extract_counts(2) [OF assms(1)] by (rule unat_small_byte [OF m5])
  have len: "length (codons_5prime ?R) = 5" "length (codons_3prime ?R) = 5"
    unfolding f5 f3 by (rule extract_lengths)+
  have cnt: "?m = length (filter (codon_present dna ?f) [0 ..< 5])"
    by (simp only: count_present)
  have c5: "\<And>j. j < 5 \<Longrightarrow> codons_5prime ?R ! j =
      (if j < ?m then encode_codon (if gene_is_forward gene then drop (?f + 3 * j) dna
                 else revcomp_codon dna (length dna - ?f - 3 - 3 * j)) else 255)"
    unfolding f5 using extract_fwd_5_nth [of _ dna ?f rec] extract_rev_5_nth [of _ dna ?f rec]
    by (cases "gene_is_forward gene") simp_all
  have c3: "\<And>j. j < 5 \<Longrightarrow> codons_3prime ?R ! j =
      (if j < ?m then encode_codon (if gene_is_forward gene
                 then drop (?f + ((length dna - ?f) div 3) * 3 - 3 - 3 * j) dna
                 else revcomp_codon dna (?f + 3 * j)) else 255)"
    unfolding f3
    using extract_fwd_3_nth [OF assms(1), of _ dna rec] extract_rev_3_nth [of _ dna ?f rec]
    by (cases "gene_is_forward gene") simp_all
  have t5: "\<forall>j<5. unat (n_5prime ?R) \<le> j \<longrightarrow> codons_5prime ?R ! j = 255"
  proof (intro allI impI)
    fix j assume j: "j < 5" and "unat (n_5prime ?R) \<le> j"
    then have "\<not> j < ?m" unfolding n5 by simp
    with c5 [OF j] show "codons_5prime ?R ! j = 255" by (simp only: if_False)
  qed
  have t3: "\<forall>j<5. unat (n_3prime ?R) \<le> j \<longrightarrow> codons_3prime ?R ! j = 255"
  proof (intro allI impI)
    fix j assume j: "j < 5" and "unat (n_3prime ?R) \<le> j"
    then have "\<not> j < ?m" unfolding n3 by simp
    with c3 [OF j] show "codons_3prime ?R ! j = 255" by (simp only: if_False)
  qed
  have h5: "\<forall>j < unat (n_5prime ?R). codons_5prime ?R ! j =
      encode_codon (if gene_is_forward gene then drop (?f + 3 * j) dna
                 else revcomp_codon dna (length dna - ?f - 3 - 3 * j))"
  proof (intro allI impI)
    fix j assume "j < unat (n_5prime ?R)"
    then have j: "j < ?m" unfolding n5 .
    then have "j < 5" by simp
    from c5 [OF this] j show "codons_5prime ?R ! j =
      encode_codon (if gene_is_forward gene then drop (?f + 3 * j) dna
                 else revcomp_codon dna (length dna - ?f - 3 - 3 * j))"
      by (simp only: if_True)
  qed
  have h3: "\<forall>j < unat (n_3prime ?R). codons_3prime ?R ! j =
      encode_codon (if gene_is_forward gene
                 then drop (?f + ((length dna - ?f) div 3) * 3 - 3 - 3 * j) dna
                 else revcomp_codon dna (?f + 3 * j))"
  proof (intro allI impI)
    fix j assume "j < unat (n_3prime ?R)"
    then have j: "j < ?m" unfolding n3 .
    then have "j < 5" by simp
    from c3 [OF this] j show "codons_3prime ?R ! j =
      encode_codon (if gene_is_forward gene
                 then drop (?f + ((length dna - ?f) div 3) * 3 - 3 - 3 * j) dna
                 else revcomp_codon dna (?f + 3 * j))"
      by (simp only: if_True)
  qed
  have enc: "\<forall>s. (encode_codon s \<le> 63 \<or> encode_codon s = 255) \<and>
              (encode_codon s = 255 \<longleftrightarrow>
                 encode_nucleotide (s ! 0) < 0 \<or> encode_nucleotide (s ! 1) < 0 \<or>
                 encode_nucleotide (s ! 2) < 0)"
    using encode_codon_range encode_codon_sentinel by blast
  have b5: "unat (n_5prime ?R) \<le> 5" "unat (n_3prime ?R) \<le> 5"
    unfolding n5 n3 by simp_all
  have k5: "unat (n_5prime ?R) = length (filter (codon_present dna ?f) [0 ..< 5])"
    "unat (n_3prime ?R) = length (filter (codon_present dna ?f) [0 ..< 5])"
    unfolding n5 n3 by (rule cnt)+
  show ?thesis
    using last b5 len n5 n3 k5 t5 t3 h5 h3 enc by blast
qed

theorem codon_count_invariant_witness:
  "gene_frame example_gene \<le> 2 \<and>
   add_record example_gene ''ANNNACGTT'' example_writer =
     Inr (example_writer\<lparr>records := [make_record example_gene ''ANNNACGTT'']\<rparr>) \<and>
   unat (n_5prime (make_record example_gene ''ANNNACGTT'')) = 2 \<and>
   codons_5prime (make_record example_gene ''ANNNACGTT'') ! 0 = 255 \<and>
   codons_5prime (make_record example_gene ''ANNNACGTT'') ! 1 = encode_codon ''ACG'' \<and>
   codons_5prime (make_record example_gene ''ANNNACGTT'') ! 2 = 255"
proof -
  have f: "gene_frame example_gene \<le> 2" by (simp add: example_gene_def)
  have a: "add_record example_gene ''ANNNACGTT'' example_writer =
     Inr (example_writer\<lparr>records := [make_record example_gene ''ANNNACGTT'']\<rparr>)"
    by (simp add: add_record_def example_writer_def new_writer_def)
  have e: "encode_codon ''NNNACGTT'' = 255" "encode_codon ''ACGTT'' = encode_codon ''ACG''"
    by (simp_all add: encode_codon_def encode_nucleotide_def)
  have g: "gene_frame example_gene = 1" "gene_is_forward example_gene"
    by (simp_all add: example_gene_def)
  from codon_count_invariant [OF f a] have
    n: "unat (n_5prime (make_record example_gene ''ANNNACGTT'')) = 2"
    and t: "\<forall>j<5. unat (n_5prime (make_record example_gene ''ANNNACGTT'')) \<le> j \<longrightarrow>
            codons_5prime (make_record example_gene ''ANNNACGTT'') ! j = 255"
    and h: "\<forall>j < unat (n_5prime (make_record example_gene ''ANNNACGTT'')).
            codons_5prime (make_record example_gene ''ANNNACGTT'') ! j =
              encode_codon (drop (1 + 3 * j) ''ANNNACGTT'')"
    by (simp_all add: g)
  from h n have "codons_5prime (make_record example_gene ''ANNNACGTT'') ! 0 = 255"
    "codons_5prime (make_record example_gene ''ANNNACGTT'') ! 1 = encode_codon ''ACG''"
    by (simp_all add: e)
  moreover from t n have "codons_5prime (make_record example_gene ''ANNNACGTT'') ! 2 = 255"
    by simp
  ultimately show ?thesis using f a n by simp
qed

subsection \<open>Rounding to nearest\<close>

lemma rne_cases: "rne x = \<lfloor>x\<rfloor> \<or> rne x = \<lfloor>x\<rfloor> + 1"
  by (simp add: rne_def Let_def)

lemma rne_error: "\<bar>of_int (rne x) - x\<bar> \<le> 1 / 2"
proof -
  have "of_int \<lfloor>x\<rfloor> \<le> x" "x < of_int \<lfloor>x\<rfloor> + 1" by linarith+
  then show ?thesis by (auto simp add: rne_def Let_def)
qed

lemma rne_of_int [simp]: "rne (of_int z) = z"
  by (simp add: rne_def)

lemma rne_ge: "of_int z \<le> x \<Longrightarrow> z \<le> rne x"
proof -
  assume "of_int z \<le> x"
  then have "z \<le> \<lfloor>x\<rfloor>" by (simp add: le_floor_iff)
  then show ?thesis using rne_cases [of x] by linarith
qed

lemma rne_le: "x \<le> of_int z \<Longrightarrow> rne x \<le> z"
proof (cases "x = of_int \<lfloor>x\<rfloor>")
  case True
  assume "x \<le> of_int z"
  with True have "\<lfloor>x\<rfloor> \<le> z" by linarith
  moreover from True have "rne x = \<lfloor>x\<rfloor>" by (metis rne_of_int)
  ultimately show ?thesis by simp
next
  case False
  assume "x \<le> of_int z"
  have "of_int \<lfloor>x\<rfloor> \<le> x" by linarith
  with False have "of_int \<lfloor>x\<rfloor> < x" by linarith
  with \<open>x \<le> of_int z\<close> have "\<lfloor>x\<rfloor> < z" by linarith
  then show ?thesis using rne_cases [of x] by linarith
qed

lemma fl_round_quantum:
  "fl_round p emin x =
     (if x = 0 then 0
      else of_int (rne (x / 2 powr of_int (quantum p emin x))) * 2 powr of_int (quantum p emin x))"
  by (rule fl_round_def)

lemma floor_log2_le:
  assumes "0 < x" "x < 2 powr of_int (k + 1)"
  shows "\<lfloor>log 2 x\<rfloor> \<le> k"
proof -
  have "log 2 x < real_of_int (k + 1)" using assms by (simp add: log_less_iff)
  moreover have "real_of_int \<lfloor>log 2 x\<rfloor> \<le> log 2 x" by (rule of_int_floor_le)
  ultimately have "real_of_int \<lfloor>log 2 x\<rfloor> < real_of_int (k + 1)" by linarith
  then have "\<lfloor>log 2 x\<rfloor> < k + 1" by (simp only: of_int_less_iff)
  then show ?thesis by simp
qed

lemma floor_log2_ge:
  assumes "0 < x" "2 powr of_int k \<le> x"
  shows "k \<le> \<lfloor>log 2 x\<rfloor>"
proof -
  have "of_int k \<le> log 2 x" using assms by (simp add: le_log_iff)
  then show ?thesis by (simp add: le_floor_iff)
qed

lemma quantum_le:
  assumes "0 < x" "x < 2 powr of_int (k + 1)" "emin \<le> k"
  shows "quantum p emin x \<le> k - (int p - 1)"
  using floor_log2_le [OF assms(1,2)] assms(3) assms(1) by (simp add: quantum_def)

lemma quantum_eq:
  assumes "0 < x" "2 powr of_int k \<le> x" "x < 2 powr of_int (k + 1)" "emin \<le> k"
  shows "quantum p emin x = k - (int p - 1)"
  using floor_log2_le [OF assms(1,3)] floor_log2_ge [OF assms(1,2)] assms(4) assms(1)
  by (simp add: quantum_def)

lemma fl_round_error:
  assumes "0 < x" "x < 2 powr of_int (k + 1)" "emin \<le> k"
  shows "\<bar>fl_round p emin x - x\<bar> \<le> 2 powr of_int (k - int p)"
proof -
  let ?e = "quantum p emin x"
  let ?u = "(2::real) powr of_int ?e"
  have u: "0 < ?u" by simp
  have "fl_round p emin x - x = (of_int (rne (x / ?u)) - x / ?u) * ?u"
    using assms(1) u by (simp add: fl_round_quantum algebra_simps)
  then have "\<bar>fl_round p emin x - x\<bar> = \<bar>of_int (rne (x / ?u)) - x / ?u\<bar> * ?u"
    using u by (simp add: abs_mult)
  also have "\<dots> \<le> (1 / 2) * ?u"
    using rne_error [of "x / ?u"] u by (intro mult_right_mono) simp_all
  also have "\<dots> = 2 powr of_int (?e - 1)"
    by (simp add: powr_diff)
  also have "\<dots> \<le> 2 powr of_int (k - int p)"
    using quantum_le [OF assms, of p] by (intro powr_mono) simp_all
  finally show ?thesis .
qed

text \<open>A multiple of \<open>2 ^ g\<close> is a value of the format's grid around every x whose
  quantum is at most \<open>2 ^ g\<close>; rounding x never crosses it.\<close>

lemma on_grid:
  assumes "e \<le> g"
  shows "\<exists>N::int. real_of_int n * 2 powr of_int g = of_int N * 2 powr of_int e"
proof -
  have "(2::real) powr of_int g = 2 powr (of_int (g - e) + of_int e)" by simp
  also have "\<dots> = 2 powr of_int (g - e) * 2 powr of_int e" by (rule powr_add)
  finally have 1: "(2::real) powr of_int g = 2 powr of_int (g - e) * 2 powr of_int e" .
  have 2: "(2::real) powr of_int (g - e) = of_int (2 ^ nat (g - e))"
    using assms powr_real_of_int [of 2 "g - e"] by simp
  have "real_of_int n * 2 powr of_int g = of_int (n * 2 ^ nat (g - e)) * 2 powr of_int e"
    unfolding 1 2 by simp
  then show ?thesis by blast
qed

lemma fl_round_ge_grid:
  assumes "0 < x" "x < 2 powr of_int (k + 1)" "emin \<le> k" "k - (int p - 1) \<le> g"
    and "real_of_int n * 2 powr of_int g \<le> x"
  shows "real_of_int n * 2 powr of_int g \<le> fl_round p emin x"
proof -
  let ?e = "quantum p emin x"
  let ?u = "(2::real) powr of_int ?e"
  have u: "0 < ?u" by simp
  have "?e \<le> g" using quantum_le [OF assms(1,2,3), of p] assms(4) by simp
  then obtain N :: int where N: "real_of_int n * 2 powr of_int g = of_int N * ?u"
    using on_grid by blast
  with assms(5) have "of_int N \<le> x / ?u" using u by (simp add: pos_le_divide_eq)
  then have "N \<le> rne (x / ?u)" by (rule rne_ge)
  then have "of_int N * ?u \<le> of_int (rne (x / ?u)) * ?u"
    using u by (intro mult_right_mono) simp_all
  then show ?thesis using assms(1) N by (simp add: fl_round_quantum)
qed

lemma fl_round_le_grid:
  assumes "0 < x" "x < 2 powr of_int (k + 1)" "emin \<le> k" "k - (int p - 1) \<le> g"
    and "x \<le> real_of_int n * 2 powr of_int g"
  shows "fl_round p emin x \<le> real_of_int n * 2 powr of_int g"
proof -
  let ?e = "quantum p emin x"
  let ?u = "(2::real) powr of_int ?e"
  have u: "0 < ?u" by simp
  have "?e \<le> g" using quantum_le [OF assms(1,2,3), of p] assms(4) by simp
  then obtain N :: int where N: "real_of_int n * 2 powr of_int g = of_int N * ?u"
    using on_grid by blast
  with assms(5) have "x / ?u \<le> of_int N" using u by (simp add: pos_divide_le_eq)
  then have "rne (x / ?u) \<le> N" by (rule rne_le)
  then have "of_int (rne (x / ?u)) * ?u \<le> of_int N * ?u"
    using u by (intro mult_right_mono) simp_all
  then show ?thesis using assms(1) N by (simp add: fl_round_quantum)
qed

lemma fl_round_binade:
  assumes "0 < x" "2 powr of_int k \<le> x" "x < 2 powr of_int (k + 1)" "emin \<le> k"
  shows "fl_round p emin x =
     of_int (rne (x / 2 powr of_int (k - (int p - 1)))) * 2 powr of_int (k - (int p - 1))"
  using assms(1) by (simp add: fl_round_quantum quantum_eq [OF assms])

lemma fl_round_exact:
  assumes "0 < x" "x < 2 powr of_int (k + 1)" "emin \<le> k" "k - (int p - 1) \<le> g"
    and "x = real_of_int n * 2 powr of_int g"
  shows "fl_round p emin x = x"
proof -
  have "real_of_int n * 2 powr of_int g \<le> fl_round p emin x"
    using assms by (intro fl_round_ge_grid [OF assms(1-4)]) simp
  moreover have "fl_round p emin x \<le> real_of_int n * 2 powr of_int g"
    using assms by (intro fl_round_le_grid [OF assms(1-4)]) simp
  ultimately show ?thesis using assms(5) by simp
qed

lemma f64_nat: 
  assumes "n < 2 ^ 53"
  shows "f64 (real n) = real n"
proof (cases "n = 0")
  case True
  then show ?thesis by (simp add: f64_def fl_round_def)
next
  case False
  have lt: "real n < 2 powr of_int (52 + 1)" using assms
    by (simp add: powr_numeral)
  show ?thesis unfolding f64_def
    by (rule fl_round_exact [where k = 52 and g = 0 and n = "int n"])
      (use False lt in simp_all)
qed

lemma f64_133: "f64 (133 / 100) = 748723438050345 / 562949953421312"
proof -
  have "f64 (133 / 100) =
     of_int (rne ((133 / 100) / 2 powr of_int (0 - (int 53 - 1)))) * 2 powr of_int (0 - (int 53 - 1))"
    unfolding f64_def by (rule fl_round_binade) simp_all
  also have "\<dots> = 748723438050345 / 562949953421312"
    by (simp add: rne_def Let_def powr_neg_numeral)
  finally show ?thesis .
qed

subsection \<open>The bucket count\<close>

lemma f64_zero [simp]: "f64 0 = 0"
  by (simp add: f64_def fl_round_def)

lemma bucket_count_value:
  assumes "n < 2 ^ 40"
  shows "unat (bucket_count n) = (133 * n) div 100 + 1"
proof (cases "n = 0")
  case True
  have "f64 (real (1::nat)) = real (1::nat)" by (rule f64_nat) simp
  then show ?thesis using True by (simp add: bucket_count_def)
next
  case False
  define m where "m = (133 * n) div 100"
  define x where "x = real n * (748723438050345 / 562949953421312)"
  define b where "b = f64 x"
  define s where "s = f64 (b + 1)"
  have n1: "1 \<le> real n" using False by simp
  have n40: "real n < 1099511627776"
  proof -
    have "real n < real (2 ^ 40)" using assms by (simp only: of_nat_less_iff)
    then show ?thesis by simp
  qed
  have "m * 100 \<le> 133 * n" "133 * n < m * 100 + 100"
    unfolding m_def by (simp_all add: dividend_less_div_times)
  then have "m * 100 \<le> 133 * n" "133 * n + 1 \<le> m * 100 + 100"
    by simp_all
  then have "real (m * 100) \<le> real (133 * n)" "real (133 * n + 1) \<le> real (m * 100 + 100)"
    by (simp_all only: of_nat_le_iff)
  then have m_lo: "real m * 100 \<le> 133 * real n"
    and m_hi: "133 * real n + 1 \<le> real m * 100 + 100"
    by simp_all
  have x_pos: "0 < x" using n1 by (simp add: x_def)
  have x_lt: "x < 2 powr of_int (40 + 1)" using n40 by (simp add: x_def powr_numeral)
  have x_lo: "real m \<le> x" unfolding x_def using m_lo n1 by linarith
  have x_hi: "x < real m + 1 + 1 / 8192 - 1 / 100" unfolding x_def using m_hi n40 by linarith
  have fn: "f64 (real n) = real n" using assms by (intro f64_nat) simp
  have b_lo: "real m \<le> b"
  proof -
    have "real_of_int (int m) * 2 powr of_int 0 \<le> fl_round 53 (- 1022) x"
      by (rule fl_round_ge_grid [OF x_pos x_lt]) (use x_lo in simp_all)
    then show ?thesis by (simp add: b_def f64_def)
  qed
  have b_err: "\<bar>b - x\<bar> \<le> 1 / 8192"
  proof -
    have "\<bar>fl_round 53 (- 1022) x - x\<bar> \<le> 2 powr of_int (40 - int 53)"
      by (rule fl_round_error [OF x_pos x_lt]) simp
    then show ?thesis by (simp add: b_def f64_def powr_neg_numeral)
  qed
  have y_pos: "0 < b + 1" using b_lo by linarith
  have y_lt: "b + 1 < 2 powr of_int (41 + 1)"
  proof -
    have "x < 2199023255552" using x_lt by (simp add: powr_numeral)
    with b_err have "b + 1 < 4398046511104" by linarith
    then show ?thesis by (simp add: powr_numeral)
  qed
  have s_lo: "real m + 1 \<le> s"
  proof -
    have "real_of_int (int m + 1) * 2 powr of_int 0 \<le> fl_round 53 (- 1022) (b + 1)"
      by (rule fl_round_ge_grid [OF y_pos y_lt]) (use b_lo in simp_all)
    then show ?thesis by (simp add: s_def f64_def)
  qed
  have s_err: "\<bar>s - (b + 1)\<bar> \<le> 1 / 4096"
  proof -
    have "\<bar>fl_round 53 (- 1022) (b + 1) - (b + 1)\<bar> \<le> 2 powr of_int (41 - int 53)"
      by (rule fl_round_error [OF y_pos y_lt]) simp
    then show ?thesis by (simp add: s_def f64_def powr_neg_numeral)
  qed
  have s_hi: "s < real m + 1 + 1" using s_err b_err x_hi by linarith
  have "\<lfloor>s\<rfloor> = int m + 1"
    by (rule floor_unique) (use s_lo s_hi in simp_all)
  moreover have "bucket_count n = of_int \<lfloor>s\<rfloor>"
    by (simp add: bucket_count_def s_def b_def x_def fn f64_133)
  ultimately have bc: "bucket_count n = of_nat (m + 1)" by simp
  have small: "m + 1 < 2 ^ 64"
  proof -
    have "real m < 2 ^ 41" using x_lo x_lt by (simp add: powr_numeral)
    then have "m < 2 ^ 41" by (metis of_nat_less_iff of_nat_numeral of_nat_power)
    then show ?thesis by simp
  qed
  have "unat (of_nat (m + 1) :: 64 word) = (m + 1) mod 2 ^ LENGTH(64)"
    by (rule unat_of_nat)
  also have "\<dots> = m + 1" using small by simp
  finally show ?thesis unfolding bc m_def .
qed

lemma finalize_header:
  assumes "\<not> finalized w" "records w \<noteq> []"
  shows "num_buckets (header (fst (finalize out w))) = bucket_count (length (records w))"
    and "num_records (header (fst (finalize out w))) = of_nat (length (records w))"
  using assms by (simp_all add: finalize_def Let_def)

lemma floor_133: "\<lfloor>real n * (133 / 100)\<rfloor> = int ((133 * n) div 100)"
proof -
  have "real n * (133 / 100) = real (133 * n) / real 100" by simp
  then show ?thesis by (simp only: floor_divide_of_nat_eq)
qed

text \<open>
  Claim C6, as amended. For a writer holding \<open>n\<close> records, \<open>1 \<le> n < 2 ^ 40\<close>,
  \<open>finalize\<close> sets the header's bucket count to \<open>\<lfloor>n * 1.33\<rfloor> + 1\<close>: the cast
  discards the fraction of \<open>n * 1.33 + 1\<close>, it does not round. (The product and the
  sum are formed in double precision; on this range the rounding errors never reach the
  next integer.)
\<close>

theorem bucket_count_formula:
  assumes "\<not> finalized w" "records w \<noteq> []" "length (records w) < 2 ^ 40"
  shows "unat (num_buckets (header (fst (finalize out w)))) =
           (133 * length (records w)) div 100 + 1 \<and>
         int (unat (num_buckets (header (fst (finalize out w))))) =
           \<lfloor>real (length (records w)) * (133 / 100)\<rfloor> + 1"
  unfolding finalize_header(1) [OF assms(1,2)] floor_133
  using bucket_count_value [OF assms(3)] by simp

theorem bucket_count_formula_witness:
  "\<not> finalized two_record_writer \<and> records two_record_writer \<noteq> [] \<and>
   length (records two_record_writer) < 2 ^ 40 \<and>
   unat (num_buckets (header (fst (finalize Stream_ok two_record_writer)))) = 3"
proof -
  have a: "\<not> finalized two_record_writer" "records two_record_writer \<noteq> []"
    "length (records two_record_writer) < 2 ^ 40"
    by (simp_all add: two_record_writer_def example_writer_def new_writer_def)
  have "length (records two_record_writer) = 2"
    by (simp add: two_record_writer_def)
  with bucket_count_formula [OF a, of Stream_ok] a show ?thesis by simp
qed

text \<open>
  The claim as stated fails for two records: the header's bucket count is 3, and
  \<open>round(2 * 1.33) + 1\<close> is 4.
\<close>

theorem bucket_count_formula_counterexample:
  "unat (num_buckets (header (fst (finalize Stream_ok two_record_writer)))) = 3 \<and>
   spec_bucket_count 2 = 4"
proof -
  have a: "\<not> finalized two_record_writer" "records two_record_writer \<noteq> []"
    by (simp_all add: two_record_writer_def example_writer_def new_writer_def)
  have l: "length (records two_record_writer) = 2"
    by (simp add: two_record_writer_def)
  have "unat (bucket_count 2) = 3" using bucket_count_value [of 2] by simp
  then have "unat (num_buckets (header (fst (finalize Stream_ok two_record_writer)))) = 3"
    unfolding finalize_header(1) [OF a] l .
  moreover have "spec_bucket_count 2 = 4" by (simp add: spec_bucket_count_def)
  ultimately show ?thesis by simp
qed

subsection \<open>Quantisation\<close>

lemma f32_zero [simp]: "f32 0 = 0"
  by (simp add: f32_def fl_round_def)




lemma f32_ge_half:
  assumes "0 < x" "x < 256" "real_of_int n / 2 \<le> x"
  shows "real_of_int n / 2 \<le> f32 x"
proof -
  have lt: "x < 2 powr of_int (7 + 1)" using assms by (simp add: powr_numeral)
  have "real_of_int n * 2 powr of_int (- 1) \<le> fl_round 24 (- 126) x"
    by (rule fl_round_ge_grid [OF assms(1) lt]) (use assms in \<open>simp_all add: powr_minus_divide\<close>)
  then show ?thesis by (simp add: f32_def powr_minus_divide)
qed

lemma f32_le_half:
  assumes "0 < x" "x < 256" "x \<le> real_of_int n / 2"
  shows "f32 x \<le> real_of_int n / 2"
proof -
  have lt: "x < 2 powr of_int (7 + 1)" using assms by (simp add: powr_numeral)
  have "fl_round 24 (- 126) x \<le> real_of_int n * 2 powr of_int (- 1)"
    by (rule fl_round_le_grid [OF assms(1) lt]) (use assms in \<open>simp_all add: powr_minus_divide\<close>)
  then show ?thesis by (simp add: f32_def powr_minus_divide)
qed

lemma f32_half_exact:
  assumes "0 \<le> n" "n < 512"
  shows "f32 (real_of_int n / 2) = real_of_int n / 2"
proof (cases "n = 0")
  case True
  then show ?thesis by simp
next
  case False
  then have pos: "0 < real_of_int n / 2" using assms by simp
  have lt: "real_of_int n / 2 < 256" using assms by simp
  show ?thesis
    using f32_ge_half [OF pos lt, of n] f32_le_half [OF pos lt, of n] by simp
qed












text \<open>
  The percentage \<open>0.25 - 2 ^ -26\<close>, which the theorem below leaves out. Doubled and
  increased by one half it is \<open>1 - 2 ^ -25\<close>, halfway between two single-precision
  numbers, and the sum rounds to 1: the quantised value is 1 where the doubled percentage
  rounded half up is 0 (the record's field is documented as
  \<^verbatim>\<open>round(damage_pct * 2.0)\<close>).
\<close>

lemma f32_tie_input: "f32 (16777215 / 67108864) = 16777215 / 67108864"
  unfolding f32_def
  by (rule fl_round_exact [where k = "- 3" and g = "- 26" and n = 16777215])
    (simp_all add: powr_neg_numeral)

lemma f32_tie_doubled: "f32 (16777215 / 33554432) = 16777215 / 33554432"
  unfolding f32_def
  by (rule fl_round_exact [where k = "- 2" and g = "- 25" and n = 16777215])
    (simp_all add: powr_neg_numeral)

lemma f32_tie_sum: "f32 (33554431 / 33554432) = 1"
proof -
  have "fl_round 24 (- 126) (33554431 / 33554432) =
      of_int (rne ((33554431 / 33554432) / 2 powr of_int (- 1 - (int 24 - 1)))) *
        2 powr of_int (- 1 - (int 24 - 1))"
    by (rule fl_round_binade) (simp_all add: powr_neg_numeral powr_minus_divide)
  also have "\<dots> = 1"
    by (simp add: rne_def Let_def powr_neg_numeral)
  finally show ?thesis by (simp add: f32_def)
qed

lemma quantize_tie: "quantize_damage_pct (16777215 / 67108864) = 1"
  by (simp add: quantize_damage_pct_def f32_tie_doubled f32_tie_sum)

lemma dequantize_one: "dequantize_damage_pct 1 = 1 / 2"
  using f32_half_exact [of 1] by (simp add: dequantize_damage_pct_def)

lemma damage_tie:
  "dequantize_damage_pct (quantize_damage_pct (16777215 / 67108864)) - 16777215 / 67108864
     = 1 / 4 + 1 / 67108864"
  by (simp add: quantize_tie dequantize_one)

text \<open>
  The probability is dequantised by a single-precision division: the result is the
  single-precision number nearest to \<open>k / 255\<close>, never further from it than
  \<open>127 / (255 * 2 ^ 24)\<close> (which is the distance for \<open>k = 128\<close>).
\<close>

lemma f32_one [simp]: "f32 1 = 1"
  using f32_half_exact [of 2] by simp











subsection \<open>Lookup after writing\<close>

subsection \<open>The sections of the written file\<close>

lemma length_bucket_bytes [simp]: "length (bucket_bytes b) = 8"
  by (simp add: bucket_bytes_def)

lemma length_record_bytes: "wf_record r \<Longrightarrow> length (record_bytes r) = 32"
  by (simp add: record_bytes_def wf_record_def)

lemma length_concat_chunks:
  assumes "\<forall>x \<in> set xs. length (f x) = k"
  shows "length (concat (map f xs)) = k * length xs"
  using assms by (induction xs) simp_all

lemma concat_chunk:
  assumes "\<forall>x \<in> set xs. length (f x) = k" "i < length xs"
  shows "take k (drop (k * i) (concat (map f xs) @ rest)) = f (xs ! i)"
  using assms
proof (induction xs arbitrary: i)
  case Nil
  then show ?case by simp
next
  case (Cons x xs)
  show ?case
  proof (cases i)
    case 0
    then show ?thesis using Cons.prems by simp
  next
    case (Suc i')
    have "drop (k * i) (concat (map f (x # xs)) @ rest) =
        drop (k * i') (concat (map f xs) @ rest)"
      using Cons.prems(1) Suc by simp
    then show ?thesis using Cons.IH [of i'] Cons.prems Suc by simp
  qed
qed

lemma length_file_image:
  assumes "length (reserved h) = 27" "\<forall>r \<in> set recs. wf_record r"
  shows "length (file_image h buckets recs chain) =
     64 + 8 * length buckets + 32 * length recs + 4 * length chain"
proof -
  have "length (concat (map bucket_bytes buckets)) = 8 * length buckets"
    by (rule length_concat_chunks) simp
  moreover have "length (concat (map record_bytes recs)) = 32 * length recs"
    by (rule length_concat_chunks) (use assms(2) in \<open>simp add: length_record_bytes\<close>)
  moreover have "length (concat (map (\<lambda>c. le_bytes 4 (unat c)) chain)) = 4 * length chain"
    by (rule length_concat_chunks) simp
  ultimately show ?thesis
    using assms(1) by (simp add: file_image_def length_header_bytes)
qed

lemma drop_one: "length xs = a \<Longrightarrow> drop (a + m) (xs @ ys) = drop m ys"
  by simp

lemma drop_two:
  "length xs = a \<Longrightarrow> length ys = b \<Longrightarrow> drop (a + b + m) (xs @ ys @ zs) = drop m zs"
  by simp

lemma drop_three:
  "length xs = a \<Longrightarrow> length ys = b \<Longrightarrow> length zs = c \<Longrightarrow>
   drop (a + b + c + m) (xs @ ys @ zs @ ws) = drop m ws"
  by simp

lemma file_bucket:
  assumes "length (reserved h) = 27" "b < length buckets"
  shows "take 8 (drop (64 + 8 * b) (file_image h buckets recs chain)) = bucket_bytes (buckets ! b)"
proof -
  have "drop (64 + 8 * b) (file_image h buckets recs chain) =
      drop (8 * b) (concat (map bucket_bytes buckets) @ concat (map record_bytes recs) @
        concat (map (\<lambda>c. le_bytes 4 (unat c)) chain))"
    unfolding file_image_def by (rule drop_one [OF length_header_bytes [OF assms(1)]])
  moreover have ch: "\<forall>x \<in> set buckets. length (bucket_bytes x) = 8" by simp
  ultimately show ?thesis
    using concat_chunk [OF ch assms(2)] by (simp only:)
qed

lemma file_record:
  assumes "length (reserved h) = 27" "\<forall>r \<in> set recs. wf_record r" "i < length recs"
  shows "take 32 (drop (64 + 8 * length buckets + 32 * i) (file_image h buckets recs chain)) =
     record_bytes (recs ! i)"
proof -
  have lb: "length (concat (map bucket_bytes buckets)) = 8 * length buckets"
    by (rule length_concat_chunks) simp
  have ch: "\<forall>r \<in> set recs. length (record_bytes r) = 32"
    using assms(2) by (simp add: length_record_bytes)
  have "drop (64 + 8 * length buckets + 32 * i) (file_image h buckets recs chain) =
      drop (32 * i) (concat (map record_bytes recs) @
        concat (map (\<lambda>c. le_bytes 4 (unat c)) chain))"
    unfolding file_image_def by (rule drop_two [OF length_header_bytes [OF assms(1)] lb])
  then show ?thesis
    using concat_chunk [OF ch assms(3)] by (simp only:)
qed

lemma file_chain:
  assumes "length (reserved h) = 27" "\<forall>r \<in> set recs. wf_record r" "i < length chain"
  shows "take 4 (drop (64 + 8 * length buckets + 32 * length recs + 4 * i)
           (file_image h buckets recs chain)) = le_bytes 4 (unat (chain ! i))"
proof -
  have lb: "length (concat (map bucket_bytes buckets)) = 8 * length buckets"
    by (rule length_concat_chunks) simp
  have lr: "length (concat (map record_bytes recs)) = 32 * length recs"
    by (rule length_concat_chunks) (use assms(2) in \<open>simp add: length_record_bytes\<close>)
  have ch: "\<forall>c \<in> set chain. length (le_bytes 4 (unat c)) = 4" by simp
  have "drop (64 + 8 * length buckets + 32 * length recs + 4 * i) (file_image h buckets recs chain) =
      drop (4 * i) (concat (map (\<lambda>c. le_bytes 4 (unat c)) chain))"
    unfolding file_image_def by (rule drop_three [OF length_header_bytes [OF assms(1)] lb lr])
  then show ?thesis
    using concat_chunk [OF ch assms(3), of "[]"] by simp
qed

lemma file_header:
  assumes "length (reserved h) = 27"
  shows "parse_header (file_image h buckets recs chain) = h"
  unfolding file_image_def by (rule parse_header_bytes [OF assms])

lemma window_take:
  assumes "take w (drop off d) = win" "a + k \<le> w"
  shows "take k (drop (off + a) d) = take k (drop a win)"
proof -
  have "take k (drop a win) = take k (drop a (take w (drop off d)))"
    by (simp only: assms(1))
  also have "\<dots> = take k (take (w - a) (drop a (drop off d)))"
    by (simp only: drop_take)
  also have "\<dots> = take k (drop (off + a) d)"
    using assms(2) by (simp add: min_def add.commute)
  finally show ?thesis by simp
qed

lemma window_read:
  assumes "take w (drop off d) = win" "a + k \<le> w"
  shows "read_le d (off + a) k = le_value (take k (drop a win))"
  unfolding read_le_def by (simp only: window_take [OF assms])

lemma window_nth:
  assumes "take w (drop off d) = win" "length win = w" "a < w"
  shows "d ! (off + a) = win ! a"
proof -
  have "length (take w (drop off d)) = w" using assms(1,2) by simp
  then have le: "off + w \<le> length d" using assms(3) by (simp add: min_def split: if_splits)
  have "win ! a = drop off d ! a" using assms(1,3) by (metis nth_take)
  also have "\<dots> = d ! (off + a)" using le by (simp add: nth_drop)
  finally show ?thesis by simp
qed

lemma parse_bucket_window:
  assumes "take 8 (drop off d) = bucket_bytes b"
  shows "parse_bucket d off = b"
proof -
  have "read_le d (off + 0) 4 = le_value (take 4 (drop 0 (bucket_bytes b)))"
    by (rule window_read [OF assms]) simp
  then have 1: "read_le d off 4 = le_value (le_bytes 4 (unat (record_offset b)))"
    by (simp add: bucket_bytes_def)
  have "read_le d (off + 4) 4 = le_value (take 4 (drop 4 (bucket_bytes b)))"
    by (rule window_read [OF assms]) simp
  then have 2: "read_le d (off + 4) 4 = le_value (le_bytes 4 (unat (next_offset b)))"
    by (simp add: bucket_bytes_def)
  show ?thesis by (simp add: parse_bucket_def 1 2 read_le_bytes32)
qed

lemma parse_record_window:
  assumes win: "take 32 (drop off d) = record_bytes r" and wf: "wf_record r"
  shows "parse_record d off = r"
proof -
  note len = length_record_bytes [OF wf]
  have l5: "length (codons_5prime r) = 5" and l3: "length (codons_3prime r) = 5"
    and n5: "length (nt_5prime r) = 3" and n3: "length (nt_3prime r) = 3"
    using wf by (simp_all add: wf_record_def)
  have "read_le d (off + 0) 8 = le_value (take 8 (drop 0 (record_bytes r)))"
    by (rule window_read [OF win]) simp
  then have f1: "read_le d off 8 = le_value (le_bytes 8 (unat (id_hash r)))"
    by (simp add: record_bytes_def)
  have "read_le d (off + 8) 2 = le_value (take 2 (drop 8 (record_bytes r)))"
    by (rule window_read [OF win]) simp
  then have f2: "read_le d (off + 8) 2 = le_value (le_bytes 2 (unat (seq_len r)))"
    by (simp add: record_bytes_def)
  have nth: "\<And>a. a < 32 \<Longrightarrow> d ! (off + a) = record_bytes r ! a"
    by (rule window_nth [OF win len])
  have b: "d ! (off + 10) = frame_strand r" "d ! (off + 11) = damage_pct_q r"
    "d ! (off + 12) = p_damaged_q r" "d ! (off + 13) = n_5prime r"
    "d ! (off + 14) = n_3prime r" "d ! (off + 15) = pad r"
    by (simp_all add: nth) (simp_all add: record_bytes_def nth_append)
  have "take 5 (drop (off + 16) d) = take 5 (drop 16 (record_bytes r))"
    by (rule window_take [OF win]) simp
  then have c5: "take 5 (drop (off + 16) d) = codons_5prime r"
    using l5 by (simp add: record_bytes_def)
  have "take 5 (drop (off + 21) d) = take 5 (drop 21 (record_bytes r))"
    by (rule window_take [OF win]) simp
  then have c3: "take 5 (drop (off + 21) d) = codons_3prime r"
    using l5 l3 by (simp add: record_bytes_def)
  have "take 3 (drop (off + 26) d) = take 3 (drop 26 (record_bytes r))"
    by (rule window_take [OF win]) simp
  then have t5: "take 3 (drop (off + 26) d) = nt_5prime r"
    using l5 l3 n5 by (simp add: record_bytes_def)
  have "take 3 (drop (off + 29) d) = take 3 (drop 29 (record_bytes r))"
    by (rule window_take [OF win]) simp
  then have t3: "take 3 (drop (off + 29) d) = nt_3prime r"
    using l5 l3 n5 n3 by (simp add: record_bytes_def)
  show ?thesis
    by (simp add: parse_record_def f1 f2 b c5 c3 t5 t3 read_le_bytes64 read_le_bytes16)
qed

lemma unat_of_nat64: "k < 2 ^ 64 \<Longrightarrow> unat (of_nat k :: 64 word) = k"
  by (simp add: unat_of_nat)

lemma unat_eq_of_nat64: "w = of_nat k \<Longrightarrow> k < 2 ^ 64 \<Longrightarrow> unat (w :: 64 word) = k"
  by (simp only: unat_of_nat64)

lemma open_file_image:
  assumes res: "length (reserved h) = 27"
    and mv: "magic h = AGD_MAGIC" "version h = AGD_VERSION"
    and wf: "\<forall>r \<in> set recs. wf_record r"
    and nb: "num_buckets h = of_nat (length buckets)"
    and nr: "num_records h = of_nat (length recs)"
    and ch: "length chain = length recs"
    and small: "64 + 8 * length buckets + 36 * length recs < 2 ^ 64"
  shows "open_reader p (healthy (file_image h buckets recs chain)) =
     Inr (image_reader (file_image h buckets recs chain) (length buckets) (length recs))"
proof -
  let ?d = "file_image h buckets recs chain"
  let ?B = "length buckets" and ?n = "length recs"
  have ph: "parse_header ?d = h" by (rule file_header [OF res])
  have len: "length ?d = 64 + 8 * ?B + 32 * ?n + 4 * ?n"
    using length_file_image [OF res wf, of buckets chain] ch by simp
  have o1: "unat (64 + num_buckets h * 8) = 64 + 8 * ?B"
  proof -
    have "64 + num_buckets h * 8 = (of_nat (64 + 8 * ?B) :: 64 word)" by (simp add: nb)
    then show ?thesis by (rule unat_eq_of_nat64) (use small in simp)
  qed
  have o2: "unat (64 + num_buckets h * 8 + num_records h * 32) = 64 + 8 * ?B + 32 * ?n"
  proof -
    have "64 + num_buckets h * 8 + num_records h * 32 = (of_nat (64 + 8 * ?B + 32 * ?n) :: 64 word)"
      by (simp add: nb nr)
    then show ?thesis by (rule unat_eq_of_nat64) (use small in simp)
  qed
  have o3: "unat (64 + num_buckets h * 8 + num_records h * 32 + num_records h * 4) =
      64 + 8 * ?B + 32 * ?n + 4 * ?n"
  proof -
    have "64 + num_buckets h * 8 + num_records h * 32 + num_records h * 4 =
        (of_nat (64 + 8 * ?B + 32 * ?n + 4 * ?n) :: 64 word)"
      by (simp add: nb nr)
    then show ?thesis by (rule unat_eq_of_nat64) (use small in simp)
  qed
  show ?thesis
    unfolding open_reader_healthy ph o1 o2 o3 image_reader_def
    using len mv by simp
qed

lemma image_reader_header:
  assumes "length (reserved h) = 27"
  shows "reader_header (image_reader (file_image h buckets recs chain) nb nr) = h"
  by (simp add: reader_header_def image_reader_def file_header [OF assms])

lemma image_bucket_at:
  assumes "length (reserved h) = 27" "b < length buckets"
  shows "bucket_at (image_reader (file_image h buckets recs chain) nb nr) b = buckets ! b"
  unfolding bucket_at_def image_reader_def
  using parse_bucket_window [OF file_bucket [OF assms, of recs chain]] by simp

lemma image_record_at:
  assumes "length (reserved h) = 27" "\<forall>r \<in> set recs. wf_record r" "i < length recs"
  shows "record_at (image_reader (file_image h buckets recs chain) (length buckets) nr) i = recs ! i"
proof -
  have "wf_record (recs ! i)" using assms(2,3) by simp
  then show ?thesis
    unfolding record_at_def image_reader_def
    using parse_record_window [OF file_record [OF assms, of buckets chain]] by simp
qed

lemma image_chain_at:
  assumes "length (reserved h) = 27" "\<forall>r \<in> set recs. wf_record r" "i < length chain"
  shows "chain_at (image_reader (file_image h buckets recs chain) (length buckets) (length recs)) i
     = chain ! i"
proof -
  have "read_le (file_image h buckets recs chain)
      (64 + 8 * length buckets + 32 * length recs + 4 * i) 4 = le_value (le_bytes 4 (unat (chain ! i)))"
    unfolding read_le_def by (simp only: file_chain [OF assms])
  then show ?thesis
    by (simp add: chain_at_def image_reader_def read_le_bytes32)
qed

subsection \<open>The chain walk\<close>

lemma reaches_not_sentinel: "reaches chain bound idx j \<Longrightarrow> idx \<noteq> 0xFFFFFFFF"
  by (induction rule: reaches.induct) auto

lemma reaches_mono:
  "reaches chain bound idx j \<Longrightarrow> bound \<le> bound' \<Longrightarrow> reaches chain bound' idx j"
proof (induction rule: reaches.induct)
  case (here idx j)
  then show ?case by (auto intro: reaches.here)
next
  case (step idx j)
  then show ?case by (auto intro: reaches.step)
qed

lemma reaches_update:
  "reaches chain bound idx j \<Longrightarrow> bound \<le> i \<Longrightarrow> reaches (chain[i := v]) bound idx j"
proof (induction rule: reaches.induct)
  case (here idx j)
  then show ?case by (auto intro: reaches.here)
next
  case (step idx j)
  then have "chain[i := v] ! unat idx = chain ! unat idx" by simp
  with step show ?case by (auto intro: reaches.step)
qed

lemma find_chain_stop: "find_chain rd h 0xFFFFFFFF = Some None"
  by (subst find_chain.simps) simp

lemma find_chain_hit:
  assumes "idx \<noteq> 0xFFFFFFFF" "unat idx < unat (num_records (reader_header rd))"
    "id_hash (record_at rd (unat idx)) = h"
  shows "find_chain rd h idx = Some (Some (record_at rd (unat idx)))"
  by (subst find_chain.simps) (simp only: assms if_True simp_thms)

lemma find_chain_next:
  assumes "idx \<noteq> 0xFFFFFFFF" "unat idx < unat (num_records (reader_header rd))"
    "id_hash (record_at rd (unat idx)) \<noteq> h"
  shows "find_chain rd h idx = find_chain rd h (chain_at rd (unat idx))"
  by (subst find_chain.simps) (simp only: assms if_True if_False simp_thms)

lemma find_chain_reaches:
  assumes "reaches chain n idx j"
    and hit: "id_hash (record_at rd j) = h"
    and nr: "unat (num_records (reader_header rd)) = n"
    and ch: "\<forall>i<n. chain_at rd i = chain ! i"
  shows "\<exists>r. find_chain rd h idx = Some (Some r) \<and> id_hash r = h"
  using assms(1,2)
proof (induction rule: reaches.induct)
  case (here idx j)
  then have "find_chain rd h idx = Some (Some (record_at rd (unat idx)))"
    using nr by (simp add: find_chain_hit)
  then show ?case using here by simp
next
  case (step idx j)
  show ?case
  proof (cases "id_hash (record_at rd (unat idx)) = h")
    case True
    then have "find_chain rd h idx = Some (Some (record_at rd (unat idx)))"
      using step(1,2) nr by (simp add: find_chain_hit)
    then show ?thesis using True by simp
  next
    case False
    then have "find_chain rd h idx = find_chain rd h (chain_at rd (unat idx))"
      using step(1,2) nr by (simp add: find_chain_next)
    also have "chain_at rd (unat idx) = chain ! unat idx" using ch step(2) by simp
    finally show ?thesis using step.IH [OF step.prems] by simp
  qed
qed

subsection \<open>The hash table built by \<^verbatim>\<open>finalize\<close>\<close>

text \<open>
  After the first \<open>i\<close> insertions every inserted record lies on the chain of its
  bucket, as long as no index has reached the end marker \<open>0xFFFFFFFF\<close>.
\<close>

lemma bucket_index_less: "nb \<noteq> 0 \<Longrightarrow> unat (h mod nb) < unat (nb :: 64 word)"
  by (simp add: unat_mod unat_gt_0)

lemma record_index_word:
  assumes "i < 2 ^ 32 - 1"
  shows "(of_nat i :: 32 word) \<noteq> 0xFFFFFFFF" and "unat (of_nat i :: 32 word) = i"
proof -
  show u: "unat (of_nat i :: 32 word) = i" using assms by (simp add: unat_of_nat)
  show "(of_nat i :: 32 word) \<noteq> 0xFFFFFFFF"
  proof
    assume "(of_nat i :: 32 word) = 0xFFFFFFFF"
    then have "unat (of_nat i :: 32 word) = unat (0xFFFFFFFF :: 32 word)" by (rule arg_cong)
    then show False using u assms by simp
  qed
qed

lemma insert_index_fst:
  "fst (insert_index recs nb (bs, ch) i) =
     bs[unat (id_hash (recs ! i) mod nb) :=
          (bs ! unat (id_hash (recs ! i) mod nb))\<lparr>record_offset := of_nat i\<rparr>]"
  by (simp add: insert_index_def Let_def)

lemma insert_index_snd:
  "snd (insert_index recs nb (bs, ch) i) =
     (if record_offset (bs ! unat (id_hash (recs ! i) mod nb)) = 0xFFFFFFFF then ch
      else ch[i := record_offset (bs ! unat (id_hash (recs ! i) mod nb))])"
  by (simp add: insert_index_def Let_def)

lemma insert_index_lengths:
  "length (fst (insert_index recs nb st i)) = length (fst st)"
  "length (snd (insert_index recs nb st i)) = length (snd st)"
  by (cases st; simp add: insert_index_fst insert_index_snd)+

lemma build_lengths:
  "length (fst (foldl (insert_index recs nb) st is)) = length (fst st)"
  "length (snd (foldl (insert_index recs nb) st is)) = length (snd st)"
  by (induction "is" arbitrary: st; simp add: insert_index_lengths)+

lemma insert_index_reaches:
  assumes lb: "length bs = unat nb" and lc: "length ch = n" and i: "i < n" "i < 2 ^ 32 - 1"
    and nb: "nb \<noteq> 0"
    and IH: "\<forall>j<i. reaches ch i (record_offset (bs ! unat (id_hash (recs ! j) mod nb))) j"
    and j: "j < Suc i"
  shows "reaches (snd (insert_index recs nb (bs, ch) i)) (Suc i)
     (record_offset (fst (insert_index recs nb (bs, ch) i) ! unat (id_hash (recs ! j) mod nb))) j"
proof -
  define b where "b = unat (id_hash (recs ! i) mod nb)"
  define c where "c = unat (id_hash (recs ! j) mod nb)"
  define h where "h = record_offset (bs ! b)"
  define bs' where "bs' = fst (insert_index recs nb (bs, ch) i)"
  define ch' where "ch' = snd (insert_index recs nb (bs, ch) i)"
  have bs': "bs' = bs[b := (bs ! b)\<lparr>record_offset := of_nat i\<rparr>]"
    unfolding bs'_def b_def by (rule insert_index_fst)
  have ch': "ch' = (if h = 0xFFFFFFFF then ch else ch[i := h])"
    unfolding ch'_def h_def b_def by (rule insert_index_snd)
  have b: "b < length bs" unfolding b_def lb by (rule bucket_index_less [OF nb])
  have keep: "reaches ch' (Suc i) idx k" if "reaches ch i idx k" for idx k
  proof -
    have "reaches ch' i idx k"
      using reaches_update [OF that, of i h] that by (simp add: ch')
    then show ?thesis by (rule reaches_mono) simp
  qed
  have "reaches ch' (Suc i) (record_offset (bs' ! c)) j"
  proof (cases "c = b")
    case True
    then have head: "record_offset (bs' ! c) = of_nat i" using b by (simp add: bs')
    show ?thesis
    proof (cases "j = i")
      case True
      show ?thesis unfolding head True
        by (rule reaches.here) (simp_all add: record_index_word [OF i(2)])
    next
      case False
      then have "j < i" using j by simp
      then have "reaches ch i (record_offset (bs ! c)) j"
        unfolding c_def by (rule IH [rule_format])
      then have old: "reaches ch i h j"
        using \<open>c = b\<close> by (simp add: h_def)
      then have "h \<noteq> 0xFFFFFFFF" by (rule reaches_not_sentinel)
      then have "ch' ! i = h" using i(1) lc by (simp add: ch')
      then have "reaches ch' (Suc i) (ch' ! unat (of_nat i :: 32 word)) j"
        using keep [OF old] by (simp add: record_index_word [OF i(2)])
      then show ?thesis unfolding head
        by (rule reaches.step [rotated 2]) (simp_all add: record_index_word [OF i(2)])
    qed
  next
    case False
    then have "j \<noteq> i" unfolding c_def b_def by auto
    then have "j < i" using j by simp
    then have "reaches ch i (record_offset (bs ! c)) j"
      unfolding c_def by (rule IH [rule_format])
    moreover have "bs' ! c = bs ! c" using False by (simp add: bs')
    ultimately show ?thesis using keep by simp
  qed
  then show ?thesis unfolding bs'_def ch'_def c_def .
qed

lemma build_reaches:
  assumes nb: "nb \<noteq> 0" and i: "i \<le> length recs" "i < 2 ^ 32"
    and lb: "length (fst st0) = unat nb" and lc: "length (snd st0) = length recs"
    and j: "j < i"
  shows "reaches (snd (foldl (insert_index recs nb) st0 [0 ..< i])) i
     (record_offset (fst (foldl (insert_index recs nb) st0 [0 ..< i]) !
        unat (id_hash (recs ! j) mod nb))) j"
  using i j
proof (induction i arbitrary: j)
  case 0
  then show ?case by simp
next
  case (Suc i)
  define st where "st = foldl (insert_index recs nb) st0 [0 ..< i]"
  have step: "foldl (insert_index recs nb) st0 [0 ..< Suc i] =
      insert_index recs nb (fst st, snd st) i"
    by (simp add: st_def)
  have l1: "length (fst st) = unat nb" unfolding st_def by (simp only: build_lengths lb)
  have l2: "length (snd st) = length recs" unfolding st_def by (simp only: build_lengths lc)
  have IH: "\<forall>j<i. reaches (snd st) i (record_offset (fst st ! unat (id_hash (recs ! j) mod nb))) j"
    using Suc.IH Suc.prems(1,2) unfolding st_def by simp
  have "i < length recs" "i < 2 ^ 32 - 1" using Suc.prems by simp_all
  then show ?case
    unfolding step using Suc.prems(3)
    by (intro insert_index_reaches [OF l1 l2 _ _ nb IH]) 
qed

subsection \<open>From the writer to the reader\<close>

lemma length_or_shift [simp]: "length (or_shift nts i v) = length nts"
  by (simp add: or_shift_def)

lemma length_foldl_keep:
  assumes "\<And>nts i. length (f nts i) = length nts"
  shows "length (foldl f nts idx) = length nts"
  by (induction idx arbitrary: nts) (simp_all add: assms)

lemma pack_lengths:
  "length (nt_5prime (pack_terminal_nucleotides dna is_reverse rec)) = 3"
  "length (nt_3prime (pack_terminal_nucleotides dna is_reverse rec)) = 3"
  by (simp_all add: pack_terminal_nucleotides_def Let_def length_foldl_keep)

lemma wf_make_record: "wf_record (make_record gene dna)"
proof -
  obtain rec where "make_record gene dna =
     pack_terminal_nucleotides dna (\<not> gene_is_forward gene)
       (extract_terminal_codons dna (gene_frame gene) (\<not> gene_is_forward gene) rec)"
    using make_record_extract by blast
  then show ?thesis by (simp add: wf_record_def pack_lengths extract_lengths)
qed

lemma add_records_append:
  "\<not> finalized w \<Longrightarrow>
   add_records inputs w =
     Inr (w\<lparr>records := records w @ map (\<lambda>(gene, dna). make_record gene dna) inputs\<rparr>)"
proof (induction inputs arbitrary: w)
  case Nil
  then show ?case by simp
next
  case (Cons a inputs)
  obtain gene dna where a: "a = (gene, dna)" by (cases a)
  show ?case using Cons.prems
    by (simp add: a add_record_def Cons.IH)
qed

lemma finalize_image:
  assumes "\<not> finalized w" "records w \<noteq> []"
  shows "snd (finalize Stream_ok w) =
     Inr (Some (file_image
       ((header w)\<lparr>num_records := of_nat (length (records w)),
                   num_buckets := bucket_count (length (records w))\<rparr>)
       (fst (build_hash_table (records w) (bucket_count (length (records w)))))
       (records w)
       (snd (build_hash_table (records w) (bucket_count (length (records w)))))))"
  using assms by (simp add: finalize_def Let_def file_image_def)

lemma build_hash_table_lengths:
  "length (fst (build_hash_table recs nb)) = unat nb"
  "length (snd (build_hash_table recs nb)) = length recs"
  by (simp_all add: build_hash_table_def build_lengths)

lemma build_hash_table_reaches:
  assumes "nb \<noteq> 0" "length recs < 2 ^ 32" "j < length recs"
  shows "reaches (snd (build_hash_table recs nb)) (length recs)
     (record_offset (fst (build_hash_table recs nb) ! unat (id_hash (recs ! j) mod nb))) j"
  unfolding build_hash_table_def
  by (rule build_reaches [OF assms(1) order_refl assms(2) _ _ assms(3)]) simp_all

lemma build_hash_table_last:
  assumes "nb \<noteq> 0" "recs \<noteq> []"
  shows "record_offset (fst (build_hash_table recs nb) ! unat (id_hash (last recs) mod nb)) =
     of_nat (length recs - 1)"
proof -
  define m where "m = length recs - 1"
  define st where "st = foldl (insert_index recs nb)
      (replicate (unat nb) \<lparr>record_offset = 0xFFFFFFFF, next_offset = 0xFFFFFFFF\<rparr>,
       replicate (length recs) (0xFFFFFFFF :: 32 word)) [0 ..< m]"
  define b where "b = unat (id_hash (recs ! m) mod nb)"
  have n: "length recs = Suc m" using assms(2) by (simp add: m_def)
  have "build_hash_table recs nb = insert_index recs nb (fst st, snd st) m"
    unfolding build_hash_table_def n by (simp add: st_def n)
  then have "fst (build_hash_table recs nb) = (fst st)[b := (fst st ! b)\<lparr>record_offset := of_nat m\<rparr>]"
    unfolding b_def by (simp only: insert_index_fst)
  moreover have "b < length (fst st)"
    unfolding b_def st_def build_lengths using bucket_index_less [OF assms(1)] by simp
  moreover have "last recs = recs ! m" using assms(2) by (simp add: last_conv_nth m_def)
  ultimately show ?thesis by (simp add: b_def m_def)
qed

lemma find_after_write_reader:
  assumes ne: "inputs \<noteq> []" and small: "length inputs < 2 ^ 40"
  defines "recs \<equiv> map (\<lambda>(gene, dna). make_record gene dna) inputs"
    and "nb \<equiv> bucket_count (length inputs)"
  shows "\<exists>rd. find_after_write p profile inputs rid =
         find_chain rd (fnv1a_hash (strip_agp_suffix rid))
           (record_offset (fst (build_hash_table recs nb) !
              unat (fnv1a_hash (strip_agp_suffix rid) mod nb))) \<and>
       unat (num_records (reader_header rd)) = length inputs \<and>
       (\<forall>i<length inputs. chain_at rd i = snd (build_hash_table recs nb) ! i) \<and>
       (\<forall>i<length inputs. record_at rd i = recs ! i)"
proof -
  define n where "n = length inputs"
  define w where "w = (new_writer p profile)\<lparr>records := recs\<rparr>"
  define hd where "hd = (header w)\<lparr>num_records := of_nat n, num_buckets := nb\<rparr>"
  define bk where "bk = fst (build_hash_table recs nb)"
  define chn where "chn = snd (build_hash_table recs nb)"
  define d where "d = file_image hd bk recs chn"
  define rd where "rd = image_reader d (length bk) (length recs)"
  define H where "H = fnv1a_hash (strip_agp_suffix rid)"
  have lrecs: "length recs = n" by (simp add: recs_def n_def)
  have "add_records inputs (new_writer p profile) = Inr w"
    by (simp add: add_records_append w_def recs_def new_writer_def)
  moreover have w: "\<not> finalized w" "records w = recs" "recs \<noteq> []" "path w = p"
    using ne by (simp_all add: w_def new_writer_def recs_def)
  have "snd (finalize Stream_ok w) = Inr (Some d)"
    using finalize_image [of w] w
    by (simp add: d_def hd_def bk_def chn_def lrecs nb_def n_def)
  moreover have res: "length (reserved hd) = 27" by (simp add: hd_def w_def)
  have mv: "magic hd = AGD_MAGIC" "version hd = AGD_VERSION"
    by (simp_all add: hd_def w_def new_writer_def)
  have wf: "\<forall>r \<in> set recs. wf_record r" by (auto simp add: recs_def wf_make_record)
  have unb: "unat nb = (133 * n) div 100 + 1"
    unfolding nb_def n_def by (rule bucket_count_value [OF small])
  then have nb0: "nb \<noteq> 0" by (auto simp add: unat_eq_0 [symmetric] simp del: unat_eq_0)
  have lbk: "length bk = unat nb" by (simp add: bk_def build_hash_table_lengths)
  have lch: "length chn = length recs" by (simp add: chn_def build_hash_table_lengths)
  have nbh: "num_buckets hd = of_nat (length bk)" by (simp add: hd_def lbk)
  have nrh: "num_records hd = of_nat (length recs)" by (simp add: hd_def lrecs)
  have "n < 2 ^ 40" using small by (simp add: n_def)
  then have sz: "64 + 8 * length bk + 36 * length recs < 2 ^ 64"
    unfolding lbk unb lrecs by simp
  have "open_reader p (healthy d) = Inr rd"
    unfolding d_def rd_def by (rule open_file_image [OF res mv wf nbh nrh lch sz])
  ultimately have faw: "find_after_write p profile inputs rid = find_record rd rid"
    by (simp add: find_after_write_def)
  have hdr: "reader_header rd = hd"
    unfolding rd_def d_def by (rule image_reader_header [OF res])
  have valid: "is_valid rd" by (simp add: is_valid_def rd_def image_reader_def)
  have "unat (H mod nb) < length bk" unfolding lbk by (rule bucket_index_less [OF nb0])
  then have "bucket_at rd (unat (H mod nb)) = bk ! unat (H mod nb)"
    unfolding rd_def d_def by (rule image_bucket_at [OF res])
  then have "find_record rd rid = find_chain rd H (record_offset (bk ! unat (H mod nb)))"
    using valid nb0 by (simp add: find_record_def Let_def hdr hd_def H_def)
  with faw have 1: "find_after_write p profile inputs rid =
      find_chain rd H (record_offset (bk ! unat (H mod nb)))" by simp
  have "n < 2 ^ 64" using \<open>n < 2 ^ 40\<close> by simp
  then have 2: "unat (num_records (reader_header rd)) = n"
    by (simp add: hdr hd_def unat_of_nat64)
  have 3: "chain_at rd i = chn ! i" if "i < n" for i
    unfolding rd_def d_def using that by (intro image_chain_at [OF res wf]) (simp add: lch lrecs)
  have 4: "record_at rd i = recs ! i" if "i < n" for i
    unfolding rd_def d_def using that by (intro image_record_at [OF res wf]) (simp add: lrecs)
  show ?thesis
    using 1 2 3 4 unfolding bk_def chn_def H_def n_def by blast
qed

lemma make_record_nth:
  assumes "j < length inputs" "inputs ! j = (gene, dna)"
  shows "id_hash (map (\<lambda>(gene, dna). make_record gene dna) inputs ! j) =
     fnv1a_hash (strip_agp_suffix (gene_read_id gene))"
  using assms by (simp add: id_hash_make_record)

lemma overflow_lookup:
  assumes ne: "inputs \<noteq> []" and small: "length inputs < 2 ^ 40"
    and lst: "last inputs = (gene, dna)"
    and wrap: "(of_nat (length inputs - 1) :: 32 word) = 0xFFFFFFFF"
  shows "find_after_write p profile inputs (gene_read_id gene) = Some None"
proof -
  define recs where "recs = map (\<lambda>(gene, dna). make_record gene dna) inputs"
  define nb where "nb = bucket_count (length inputs)"
  define H where "H = fnv1a_hash (strip_agp_suffix (gene_read_id gene))"
  have "unat nb = (133 * length inputs) div 100 + 1"
    unfolding nb_def by (rule bucket_count_value [OF small])
  then have nb0: "nb \<noteq> 0" by (auto simp add: unat_eq_0 [symmetric] simp del: unat_eq_0)
  have rne: "recs \<noteq> []" using ne by (simp add: recs_def)
  have "last recs = make_record gene dna"
    using ne lst by (simp add: recs_def last_map)
  then have "id_hash (last recs) = H" by (simp add: H_def id_hash_make_record)
  then have "record_offset (fst (build_hash_table recs nb) ! unat (H mod nb)) =
      of_nat (length recs - 1)"
    using build_hash_table_last [OF nb0 rne] by simp
  also have "\<dots> = 0xFFFFFFFF" using wrap by (simp add: recs_def)
  finally have head: "record_offset (fst (build_hash_table recs nb) ! unat (H mod nb)) =
      0xFFFFFFFF" .
  obtain rd where "find_after_write p profile inputs (gene_read_id gene) =
       find_chain rd H (record_offset (fst (build_hash_table recs nb) ! unat (H mod nb)))"
    using find_after_write_reader [OF ne small, of p profile "gene_read_id gene"]
    unfolding recs_def [symmetric] nb_def [symmetric] H_def [symmetric]
    by blast
  then show ?thesis by (simp only: head find_chain_stop)
qed

text \<open>
  Claim C1, as amended. After fewer than \<open>2 ^ 32\<close> calls of \<open>add_record\<close> on a
  new writer, followed by \<open>finalize\<close>, a reader opened on the file written finds,
  for the read identifier of every call, a record (not the null pointer) whose
  \<open>id_hash\<close> is the FNV-1a hash of the identifier without its suffix, however
  many records share its bucket: the walk returns, and it returns such a record.
\<close>

theorem lookup_round_trip:
  assumes "length inputs < 2 ^ 32" and "(gene, dna) \<in> set inputs"
  shows "\<exists>r. find_after_write p profile inputs (gene_read_id gene) = Some (Some r) \<and>
     id_hash r = fnv1a_hash (strip_agp_suffix (gene_read_id gene))"
proof -
  define recs where "recs = map (\<lambda>(gene, dna). make_record gene dna) inputs"
  define nb where "nb = bucket_count (length inputs)"
  define H where "H = fnv1a_hash (strip_agp_suffix (gene_read_id gene))"
  define tbl where "tbl = build_hash_table recs nb"
  obtain j where j: "j < length inputs" "inputs ! j = (gene, dna)"
    using assms(2) by (auto simp add: in_set_conv_nth)
  have ne: "inputs \<noteq> []" using assms(2) by auto
  have small: "length inputs < 2 ^ 40"
    by (rule less_trans [OF assms(1)]) simp
  have hj: "id_hash (recs ! j) = H"
    unfolding recs_def H_def by (rule make_record_nth [OF j])
  have "unat nb = (133 * length inputs) div 100 + 1"
    unfolding nb_def by (rule bucket_count_value [OF small])
  then have nb0: "nb \<noteq> 0" by (auto simp add: unat_eq_0 [symmetric] simp del: unat_eq_0)
  have lrecs: "length recs = length inputs" by (simp add: recs_def)
  obtain rd where rd:
    "find_after_write p profile inputs (gene_read_id gene) =
       find_chain rd H (record_offset (fst tbl ! unat (H mod nb)))"
    "unat (num_records (reader_header rd)) = length recs"
    "\<forall>i<length recs. chain_at rd i = snd tbl ! i"
    "\<forall>i<length recs. record_at rd i = recs ! i"
    using find_after_write_reader [OF ne small, of p profile "gene_read_id gene"]
    unfolding recs_def [symmetric] nb_def [symmetric] H_def [symmetric] tbl_def [symmetric] lrecs
    by blast
  have "reaches (snd tbl) (length recs) (record_offset (fst tbl ! unat (id_hash (recs ! j) mod nb))) j"
    unfolding tbl_def lrecs
    by (rule build_hash_table_reaches [OF nb0, of recs j, unfolded lrecs, OF assms(1) j(1)])
  then have r: "reaches (snd tbl) (length recs) (record_offset (fst tbl ! unat (H mod nb))) j"
    by (simp only: hj)
  have hit: "id_hash (record_at rd j) = H" using rd(4) j(1) hj by (simp add: lrecs)
  have "\<exists>r. find_chain rd H (record_offset (fst tbl ! unat (H mod nb))) = Some (Some r) \<and>
      id_hash r = H"
    by (rule find_chain_reaches [OF r hit rd(2) rd(3)])
  then show ?thesis unfolding rd(1) H_def .
qed

theorem lookup_round_trip_witness:
  "length colliding_input < 2 ^ 32 \<and>
   (example_gene, ''CCC'') \<in> set colliding_input \<and>
   (\<exists>r. find_after_write ''out.agd'' example_profile colliding_input ''read42_+_1'' =
          Some (Some r) \<and>
        id_hash r = fnv1a_hash ''read42'')"
proof -
  have "length colliding_input < 2 ^ 32" by (simp add: colliding_input_def)
  moreover have "(example_gene, ''CCC'') \<in> set colliding_input"
    by (simp add: colliding_input_def)
  moreover have "gene_read_id example_gene = ''read42_+_1''" by (simp add: example_gene_def)
  moreover have "strip_agp_suffix ''read42_+_1'' = ''read42''"
    by (simp add: strip_agp_suffix_def)
  ultimately show ?thesis
    using lookup_round_trip [of colliding_input example_gene "''CCC''" "''out.agd''"
        example_profile]
    by simp
qed

text \<open>
  The claim as stated, for every finite sequence of calls, fails at \<open>2 ^ 32\<close>
  calls: record indices are stored in 32 bits, the last record has index
  \<open>2 ^ 32 - 1\<close>, which is the end marker \<open>0xFFFFFFFF\<close>, so the head of its
  bucket reads as empty and the lookup of its identifier returns the null pointer.
\<close>

theorem lookup_round_trip_counterexample:
  "(example_gene, ''ATGAAATTT'') \<in> set overflow_input \<and>
   find_after_write ''out.agd'' example_profile overflow_input (gene_read_id example_gene) =
     Some None"
proof -
  define n :: nat where "n = 2 ^ 32"
  have ov: "overflow_input = replicate n (example_gene, ''ATGAAATTT'')"
    by (simp only: overflow_input_def n_def)
  have n0: "n \<noteq> 0" by (simp add: n_def)
  have mem: "(example_gene, ''ATGAAATTT'') \<in> set overflow_input"
    unfolding ov using n0 by simp
  have ne: "overflow_input \<noteq> []" unfolding ov using n0 by simp
  have len: "length overflow_input = n" unfolding ov by simp
  have small: "length overflow_input < 2 ^ 40" unfolding len n_def by simp
  have lst: "last overflow_input = (example_gene, ''ATGAAATTT'')"
    unfolding ov using n0 by simp
  have wrap: "(of_nat (length overflow_input - 1) :: 32 word) = 0xFFFFFFFF"
    unfolding len n_def by simp
  show ?thesis
    using mem overflow_lookup [OF ne small lst wrap] by simp
qed

end
